theory Spec2Isabelle
  imports Complex_Main "HOL-Library.AList"
begin

section \<open>Graph model (types/index.ts)\<close>

text \<open>
  JavaScript numbers are modelled as exact reals; positions and weights are finite.
  The value \<open>Infinity\<close>, which the executors store in their distance tables, is a
  separate constructor of \<open>number\<close>. Identifiers and labels are strings, an absent
  value (\<open>undefined\<close>) is \<open>None\<close>.
\<close>

record Node =
  nid :: string
  label :: string
  pos_x :: real
  pos_y :: real

record Edge =
  eid :: string
  source :: string
  target :: string
  weight :: real

record Graph =
  nodes :: "Node list"
  edges :: "Edge list"
  directed :: bool
  weighted :: bool

datatype NodeState = UNVISITED | VISITING | VISITED | IN_PATH | IN_SOLUTION | CURRENT

datatype EdgeState = UNEXAMINED | EXAMINING | E_IN_SOLUTION | REJECTED

record AlgorithmMetrics =
  nodesVisited :: nat
  edgesExamined :: nat
  operationsCount :: nat
  comparisons :: nat

datatype number = Num real | Infinity

datatype heuristic_kind = Manhattan | Euclidean

datatype Color = WHITE | GRAY | BLACK

text \<open>Reading a property of \<open>undefined\<close> throws a \<open>TypeError\<close>.\<close>

datatype error = TypeError

record AlgorithmParams =
  startNodeId :: "string option"
  endNodeId :: "string option"
  heuristic :: "heuristic_kind option"

text \<open>
  A template string is kept as the list of its pieces: literal text, an interpolated label
  (\<open>None\<close> prints as undefined), an interpolated number or counter, or a list of labels
  joined by a separator. The auxiliary views of \<open>dataStructures\<close> keep the values that
  the source formats for display.
\<close>

datatype frag =
  T string
  | L "string option"
  | R real
  | NumF number
  | K nat
  | Z int
  | NumO "number option"
  | Joined string "string option list"

datatype dsval =
  Labels "string option list"
  | Flag bool
  | Count nat
  | Total real
  | NumTable "(string \<times> number option) list"
  | IntTable "(string \<times> int) list"
  | ColorTable "(string option \<times> Color) list"
  | ScoreTable "(string \<times> number option \<times> number option) list"
  | PQView "(number \<times> string option) list"
  | Groups "(nat \<times> string list) list"
  | Words "frag list list"
  | Phrase "frag list"

record AlgorithmStep =
  stepNumber :: nat
  description :: "frag list"
  pseudocodeLine :: nat
  nodeStates :: "(string \<times> NodeState) list"
  edgeStates :: "(string \<times> EdgeState) list"
  dataStructures :: "(string \<times> dsval) list"
  currentOperation :: "frag list"
  metrics :: AlgorithmMetrics

section \<open>Graph utilities (core/graph/graphUtils.ts)\<close>

definition getNode :: "Graph \<Rightarrow> string \<Rightarrow> Node option" where
  "getNode g i = find (\<lambda>n. nid n = i) (nodes g)"

definition label_of :: "Graph \<Rightarrow> string \<Rightarrow> string option" where
  "label_of g i = map_option label (getNode g i)"

definition getEdgeBetween :: "Graph \<Rightarrow> string \<Rightarrow> string \<Rightarrow> Edge option" where
  "getEdgeBetween g s t =
     find (\<lambda>e. if directed g then source e = s \<and> target e = t
               else (source e = s \<and> target e = t) \<or> (source e = t \<and> target e = s))
          (edges g)"

type_synonym adjlist = "(string \<times> (string \<times> real) list) list"

definition adj_push :: "string \<Rightarrow> string \<times> real \<Rightarrow> adjlist \<Rightarrow> adjlist" where
  "adj_push k v al =
     (case map_of al k of None \<Rightarrow> al | Some xs \<Rightarrow> AList.update k (xs @ [v]) al)"

definition toAdjacencyList :: "Graph \<Rightarrow> adjlist" where
  "toAdjacencyList g =
     foldl (\<lambda>al e.
              let al1 = adj_push (source e) (target e, weight e) al
              in if \<not> directed g then adj_push (target e) (source e, weight e) al1 else al1)
           (foldl (\<lambda>al n. AList.update (nid n) [] al) [] (nodes g))
           (edges g)"

definition neighbors_of :: "adjlist \<Rightarrow> string \<Rightarrow> (string \<times> real) list" where
  "neighbors_of al i = (case map_of al i of None \<Rightarrow> [] | Some xs \<Rightarrow> xs)"

definition calculateDistance :: "Node \<Rightarrow> Node \<Rightarrow> heuristic_kind \<Rightarrow> real" where
  "calculateDistance n1 n2 ty =
     (let dx = \<bar>pos_x n1 - pos_x n2\<bar>; dy = \<bar>pos_y n1 - pos_y n2\<bar>
      in if ty = Manhattan then dx + dy else sqrt (dx * dx + dy * dy))"

section \<open>The live state every executor keeps\<close>

text \<open>
  Each executor owns the maps \<open>nodeStates\<close> and \<open>edgeStates\<close>, the counters
  \<open>metrics\<close> and the array \<open>steps\<close>. A JavaScript \<open>Map\<close> keeps insertion order and
  \<open>set\<close> overwrites in place, which is \<open>AList.update\<close>. A \<open>Set\<close> is the list of its
  members in insertion order.
\<close>

record trace =
  nstates :: "(string \<times> NodeState) list"
  estates :: "(string \<times> EdgeState) list"
  mets :: AlgorithmMetrics
  steps :: "AlgorithmStep list"

definition zero_metrics :: AlgorithmMetrics where
  "zero_metrics = \<lparr>nodesVisited = 0, edgesExamined = 0, operationsCount = 0, comparisons = 0\<rparr>"

definition init_nstates :: "Graph \<Rightarrow> (string \<times> NodeState) list" where
  "init_nstates g = foldl (\<lambda>m n. AList.update (nid n) UNVISITED m) [] (nodes g)"

definition init_estates :: "Graph \<Rightarrow> (string \<times> EdgeState) list" where
  "init_estates g = foldl (\<lambda>m e. AList.update (eid e) UNEXAMINED m) [] (edges g)"

definition set_node :: "string \<Rightarrow> NodeState \<Rightarrow> 'a trace_scheme \<Rightarrow> 'a trace_scheme" where
  "set_node i v st = st\<lparr>nstates := AList.update i v (nstates st)\<rparr>"

definition set_edge :: "string \<Rightarrow> EdgeState \<Rightarrow> 'a trace_scheme \<Rightarrow> 'a trace_scheme" where
  "set_edge i v st = st\<lparr>estates := AList.update i v (estates st)\<rparr>"

definition set_edge_opt :: "Edge option \<Rightarrow> EdgeState \<Rightarrow> 'a trace_scheme \<Rightarrow> 'a trace_scheme" where
  "set_edge_opt e v st = (case e of None \<Rightarrow> st | Some ed \<Rightarrow> set_edge (eid ed) v st)"

definition reject_unless_solution :: "Edge option \<Rightarrow> 'a trace_scheme \<Rightarrow> 'a trace_scheme" where
  "reject_unless_solution e st =
     (case e of None \<Rightarrow> st
      | Some ed \<Rightarrow> if map_of (estates st) (eid ed) \<noteq> Some E_IN_SOLUTION
                   then set_edge (eid ed) REJECTED st else st)"

definition inc_nodesVisited :: "nat \<Rightarrow> 'a trace_scheme \<Rightarrow> 'a trace_scheme" where
  "inc_nodesVisited k st = st\<lparr>mets := (mets st)\<lparr>nodesVisited := nodesVisited (mets st) + k\<rparr>\<rparr>"

definition inc_edgesExamined :: "'a trace_scheme \<Rightarrow> 'a trace_scheme" where
  "inc_edgesExamined st = st\<lparr>mets := (mets st)\<lparr>edgesExamined := edgesExamined (mets st) + 1\<rparr>\<rparr>"

definition inc_operationsCount :: "'a trace_scheme \<Rightarrow> 'a trace_scheme" where
  "inc_operationsCount st = st\<lparr>mets := (mets st)\<lparr>operationsCount := operationsCount (mets st) + 1\<rparr>\<rparr>"

definition inc_comparisons :: "'a trace_scheme \<Rightarrow> 'a trace_scheme" where
  "inc_comparisons st = st\<lparr>mets := (mets st)\<lparr>comparisons := comparisons (mets st) + 1\<rparr>\<rparr>"

definition push_step ::
  "frag list \<Rightarrow> nat \<Rightarrow> (string \<times> dsval) list \<Rightarrow> frag list \<Rightarrow> 'a trace_scheme \<Rightarrow> 'a trace_scheme" where
  "push_step d l ds opn st =
     st\<lparr>steps := steps st @
        [\<lparr>stepNumber = length (steps st) + 1, description = d, pseudocodeLine = l,
          nodeStates = nstates st, edgeStates = estates st, dataStructures = ds,
          currentOperation = opn, metrics = mets st\<rparr>]\<rparr>"

definition set_add :: "string \<Rightarrow> string list \<Rightarrow> string list" where
  "set_add i xs = (if i \<in> set xs then xs else xs @ [i])"

definition falsy_id :: "string option \<Rightarrow> bool" where
  "falsy_id s = (s = None \<or> s = Some [])"

section \<open>Breadth-first search (algorithms/traversal/bfs.ts)\<close>

record bfs_state = trace +
  bfs_queue :: "string list"
  bfs_visited :: "string list"

definition bfs_views :: "Graph \<Rightarrow> bfs_state \<Rightarrow> (string \<times> dsval) list" where
  "bfs_views g st =
     [(''queue'', Labels (map (label_of g) (bfs_queue st))),
      (''visited'', Labels (map (label_of g) (bfs_visited st)))]"

definition bfs_neighbor :: "Graph \<Rightarrow> string \<Rightarrow> string \<Rightarrow> bfs_state \<Rightarrow> bfs_state" where
  "bfs_neighbor g currentId neighborId st0 =
     (let edge = getEdgeBetween g currentId neighborId;
          st1 = inc_operationsCount (inc_comparisons (inc_edgesExamined st0));
          st2 = set_edge_opt edge EXAMINING st1;
          st3 = push_step [T ''Examine edge from '', L (label_of g currentId), T '' to '',
                           L (label_of g neighborId), T ''.''] 7 (bfs_views g st2)
                          [T ''Check neighbor '', L (label_of g neighborId)] st2
      in if neighborId \<notin> set (bfs_visited st3) then
           (let st4 = st3\<lparr>bfs_visited := set_add neighborId (bfs_visited st3),
                          bfs_queue := bfs_queue st3 @ [neighborId]\<rparr>;
                st5 = inc_nodesVisited 1 (set_node neighborId VISITING st4);
                st6 = set_edge_opt edge E_IN_SOLUTION st5
            in push_step [T ''Node '', L (label_of g neighborId),
                          T '' not visited. Mark as visited and add to queue.''] 9
                         (bfs_views g st6) [T ''Enqueue '', L (label_of g neighborId)] st6)
         else reject_unless_solution edge st3)"

fun bfs_neighbors :: "Graph \<Rightarrow> string \<Rightarrow> (string \<times> real) list \<Rightarrow> bfs_state \<Rightarrow> bfs_state" where
  "bfs_neighbors g currentId [] st = st"
| "bfs_neighbors g currentId ((neighborId, w) # rest) st =
     bfs_neighbors g currentId rest (bfs_neighbor g currentId neighborId st)"

definition bfs_iter :: "Graph \<Rightarrow> adjlist \<Rightarrow> string \<Rightarrow> bfs_state \<Rightarrow> bfs_state" where
  "bfs_iter g al currentId st0 =
     (let st1 = inc_operationsCount (set_node currentId CURRENT st0);
          st2 = push_step [T ''Dequeue node '', L (label_of g currentId), T '' from queue.''] 5
                          (bfs_views g st1) [T ''Dequeue '', L (label_of g currentId)] st1;
          st3 = bfs_neighbors g currentId (neighbors_of al currentId) st2;
          st4 = set_node currentId VISITED st3
      in push_step [T ''Finished processing node '', L (label_of g currentId), T ''.''] 6
                   (bfs_views g st4) [T ''Complete '', L (label_of g currentId)] st4)"

definition adj_ids :: "adjlist \<Rightarrow> string set" where
  "adj_ids al = (\<Union>(k, xs) \<in> set al. fst ` set xs)"

function bfs_loop :: "Graph \<Rightarrow> adjlist \<Rightarrow> bfs_state \<Rightarrow> bfs_state" where
  "bfs_loop g al st =
     (case bfs_queue st of
        [] \<Rightarrow> st
      | currentId # q \<Rightarrow> bfs_loop g al (bfs_iter g al currentId (st\<lparr>bfs_queue := q\<rparr>)))"
  by pat_completeness auto

lemma bfs_fields_prims [simp]:
  "bfs_queue (set_node i v st) = bfs_queue st"
  "bfs_visited (set_node i v st) = bfs_visited st"
  "bfs_queue (set_edge j ev st) = bfs_queue st"
  "bfs_visited (set_edge j ev st) = bfs_visited st"
  "bfs_queue (set_edge_opt e ev st) = bfs_queue st"
  "bfs_visited (set_edge_opt e ev st) = bfs_visited st"
  "bfs_queue (reject_unless_solution e st) = bfs_queue st"
  "bfs_visited (reject_unless_solution e st) = bfs_visited st"
  "bfs_queue (inc_nodesVisited k st) = bfs_queue st"
  "bfs_visited (inc_nodesVisited k st) = bfs_visited st"
  "bfs_queue (inc_edgesExamined st) = bfs_queue st"
  "bfs_visited (inc_edgesExamined st) = bfs_visited st"
  "bfs_queue (inc_operationsCount st) = bfs_queue st"
  "bfs_visited (inc_operationsCount st) = bfs_visited st"
  "bfs_queue (inc_comparisons st) = bfs_queue st"
  "bfs_visited (inc_comparisons st) = bfs_visited st"
  "bfs_queue (push_step d l ds opn st) = bfs_queue st"
  "bfs_visited (push_step d l ds opn st) = bfs_visited st"
  by (simp_all add: set_node_def set_edge_def set_edge_opt_def reject_unless_solution_def
        inc_nodesVisited_def inc_edgesExamined_def inc_operationsCount_def inc_comparisons_def
        push_step_def split: option.splits)

definition bfs_measure :: "adjlist \<Rightarrow> bfs_state \<Rightarrow> nat" where
  "bfs_measure al st = card (adj_ids al - set (bfs_visited st)) + length (bfs_queue st)"

lemma finite_adj_ids: "finite (adj_ids al)"
  by (auto simp: adj_ids_def)

lemma neighbors_of_adj_ids: "(n, w) \<in> set (neighbors_of al i) \<Longrightarrow> n \<in> adj_ids al"
proof -
  assume a: "(n, w) \<in> set (neighbors_of al i)"
  then obtain xs where xs: "map_of al i = Some xs" "(n, w) \<in> set xs"
    by (cases "map_of al i") (auto simp: neighbors_of_def)
  then have "(i, xs) \<in> set al" by (simp add: map_of_SomeD)
  with xs(2) show ?thesis unfolding adj_ids_def by force
qed

lemma bfs_neighbor_queue_visited:
  "bfs_visited (bfs_neighbor g c n st) = set_add n (bfs_visited st)"
  "bfs_queue (bfs_neighbor g c n st) =
     (if n \<in> set (bfs_visited st) then bfs_queue st else bfs_queue st @ [n])"
  by (simp_all add: bfs_neighbor_def Let_def set_add_def)

lemma card_Diff_set_add:
  assumes "finite U" "n \<in> U" "n \<notin> set vs"
  shows "card (U - set (set_add n vs)) + 1 = card (U - set vs)"
proof -
  have "U - set (set_add n vs) = (U - set vs) - {n}"
    using assms by (auto simp: set_add_def)
  moreover have "n \<in> U - set vs" using assms by simp
  moreover have "finite (U - set vs)" using assms by simp
  ultimately show ?thesis using card_Suc_Diff1 [of "U - set vs" n] by simp
qed

lemma bfs_neighbor_measure:
  "n \<in> adj_ids al \<Longrightarrow> bfs_measure al (bfs_neighbor g c n st) = bfs_measure al st"
proof (cases "n \<in> set (bfs_visited st)")
  case True
  then show ?thesis by (simp add: bfs_measure_def bfs_neighbor_queue_visited set_add_def)
next
  case False
  assume "n \<in> adj_ids al"
  from card_Diff_set_add [OF finite_adj_ids this False] False
  show ?thesis by (simp add: bfs_measure_def bfs_neighbor_queue_visited)
qed

lemma bfs_neighbors_measure:
  "fst ` set ns \<subseteq> adj_ids al \<Longrightarrow> bfs_measure al (bfs_neighbors g c ns st) = bfs_measure al st"
  by (induction ns arbitrary: st) (auto simp: bfs_neighbor_measure)

lemma bfs_iter_measure:
  "bfs_measure al (bfs_iter g al c st) = bfs_measure al st"
proof -
  have "fst ` set (neighbors_of al c) \<subseteq> adj_ids al"
    using neighbors_of_adj_ids by fastforce
  then have "bfs_measure al (bfs_iter g al c st) =
      bfs_measure al (push_step [T ''Dequeue node '', L (label_of g c), T '' from queue.''] 5
         (bfs_views g (inc_operationsCount (set_node c CURRENT st)))
         [T ''Dequeue '', L (label_of g c)] (inc_operationsCount (set_node c CURRENT st)))"
    unfolding bfs_iter_def Let_def
    by (subst bfs_neighbors_measure [symmetric, where g = g and c = c and ns = "neighbors_of al c"])
       (simp_all add: bfs_measure_def)
  then show ?thesis by (simp add: bfs_measure_def)
qed

termination bfs_loop
proof (relation "measure (\<lambda>(g, al, st). bfs_measure al st)")
  show "wf (measure (\<lambda>(g, al, st). bfs_measure al st))" by simp
next
  fix g :: Graph and al :: adjlist and st :: bfs_state and currentId q
  assume "bfs_queue st = currentId # q"
  then have "bfs_measure al (st\<lparr>bfs_queue := q\<rparr>) < bfs_measure al st"
    by (simp add: bfs_measure_def)
  then show "((g, al, bfs_iter g al currentId (st\<lparr>bfs_queue := q\<rparr>)), (g, al, st))
        \<in> measure (\<lambda>(g, al, st). bfs_measure al st)"
    by (simp add: bfs_iter_measure)
qed

declare bfs_loop.simps [simp del]

text \<open>\<open>bfs_run\<close> is the executor's state when the while loop has ended.\<close>

definition bfs_run :: "Graph \<Rightarrow> string \<Rightarrow> bfs_state" where
  "bfs_run g startId =
     (let adjList = toAdjacencyList g;
          st0 = \<lparr>nstates = init_nstates g, estates = init_estates g, mets = zero_metrics,
                 steps = [], bfs_queue = [startId], bfs_visited = [startId]\<rparr>;
          st1 = inc_operationsCount (inc_nodesVisited 1 (set_node startId VISITING st0));
          st2 = push_step [T ''Start BFS from node '', L (label_of g startId), T ''. Add to queue.'']
                  3 (bfs_views g st1) [T ''Initialize''] st1
      in bfs_loop g adjList st2)"

definition executeBFS :: "Graph \<Rightarrow> AlgorithmParams \<Rightarrow> AlgorithmStep list" where
  "executeBFS g params =
     (if falsy_id (startNodeId params) \<or> find (\<lambda>n. nid n = the (startNodeId params)) (nodes g) = None
      then []
      else
        let startId = the (startNodeId params);
            st3 = bfs_run g startId;
            st4 = foldl (\<lambda>s i. set_node i IN_SOLUTION s) st3 (bfs_visited st3)
        in steps (push_step [T ''BFS complete. Visited '', K (length (bfs_visited st4)), T '' nodes.'']
                    10 [(''queue'', Labels []), (''visited'', Labels (map (label_of g) (bfs_visited st4)))]
                    [T ''Complete''] st4))"

section \<open>Depth-first search (algorithms/traversal/dfs.ts)\<close>

text \<open>
  The stack is kept with its top at the head of the list: \<open>push\<close> is cons, \<open>pop\<close> takes
  the head, and the displayed view \<open>[...stack].reverse()\<close> is the list itself.
\<close>

record dfs_state = trace +
  dfs_stack :: "string list"
  dfs_visited :: "string list"

definition dfs_views :: "Graph \<Rightarrow> dfs_state \<Rightarrow> (string \<times> dsval) list" where
  "dfs_views g st =
     [(''stack'', Labels (map (label_of g) (dfs_stack st))),
      (''visited'', Labels (map (label_of g) (dfs_visited st)))]"

definition dfs_neighbor :: "Graph \<Rightarrow> string \<Rightarrow> string \<Rightarrow> dfs_state \<Rightarrow> dfs_state" where
  "dfs_neighbor g currentId neighborId st0 =
     (let edge = getEdgeBetween g currentId neighborId;
          st1 = inc_operationsCount (inc_edgesExamined st0);
          st2 = (if neighborId \<notin> set (dfs_visited st1) then set_edge_opt edge EXAMINING st1 else st1)
      in if neighborId \<notin> set (dfs_visited st2) then
           (let st3 = st2\<lparr>dfs_stack := neighborId # dfs_stack st2\<rparr>;
                st4 = (if map_of (nstates st3) neighborId = Some UNVISITED
                       then set_node neighborId VISITING st3 else st3);
                st5 = set_edge_opt edge E_IN_SOLUTION st4
            in push_step [T ''Push neighbor '', L (label_of g neighborId), T '' onto stack.''] 9
                         (dfs_views g st5) [T ''Push '', L (label_of g neighborId)] st5)
         else reject_unless_solution edge st2)"

fun dfs_neighbors :: "Graph \<Rightarrow> string \<Rightarrow> (string \<times> real) list \<Rightarrow> dfs_state \<Rightarrow> dfs_state" where
  "dfs_neighbors g currentId [] st = st"
| "dfs_neighbors g currentId ((neighborId, w) # rest) st =
     dfs_neighbors g currentId rest (dfs_neighbor g currentId neighborId st)"

definition dfs_iter :: "Graph \<Rightarrow> adjlist \<Rightarrow> string \<Rightarrow> dfs_state \<Rightarrow> dfs_state" where
  "dfs_iter g al currentId st0 =
     (let st1 = inc_comparisons (inc_operationsCount st0)
      in if currentId \<in> set (dfs_visited st1) then
           push_step [T ''Node '', L (label_of g currentId), T '' already visited. Skip.''] 5
                     (dfs_views g st1) [T ''Skip '', L (label_of g currentId)] st1
         else
           (let st2 = st1\<lparr>dfs_visited := set_add currentId (dfs_visited st1)\<rparr>;
                st3 = set_node currentId CURRENT (inc_nodesVisited 1 st2);
                st4 = push_step [T ''Pop node '', L (label_of g currentId),
                                 T '' from stack. Mark as visited.''] 6
                                (dfs_views g st3) [T ''Visit '', L (label_of g currentId)] st3;
                st5 = dfs_neighbors g currentId (rev (neighbors_of al currentId)) st4
            in set_node currentId VISITED st5))"

function dfs_loop :: "Graph \<Rightarrow> adjlist \<Rightarrow> dfs_state \<Rightarrow> dfs_state" where
  "dfs_loop g al st =
     (case dfs_stack st of
        [] \<Rightarrow> st
      | currentId # rest \<Rightarrow> dfs_loop g al (dfs_iter g al currentId (st\<lparr>dfs_stack := rest\<rparr>)))"
  by pat_completeness auto

lemma dfs_fields_prims [simp]:
  "dfs_stack (set_node i v st) = dfs_stack st"
  "dfs_visited (set_node i v st) = dfs_visited st"
  "dfs_stack (set_edge j ev st) = dfs_stack st"
  "dfs_visited (set_edge j ev st) = dfs_visited st"
  "dfs_stack (set_edge_opt e ev st) = dfs_stack st"
  "dfs_visited (set_edge_opt e ev st) = dfs_visited st"
  "dfs_stack (reject_unless_solution e st) = dfs_stack st"
  "dfs_visited (reject_unless_solution e st) = dfs_visited st"
  "dfs_stack (inc_nodesVisited k st) = dfs_stack st"
  "dfs_visited (inc_nodesVisited k st) = dfs_visited st"
  "dfs_stack (inc_edgesExamined st) = dfs_stack st"
  "dfs_visited (inc_edgesExamined st) = dfs_visited st"
  "dfs_stack (inc_operationsCount st) = dfs_stack st"
  "dfs_visited (inc_operationsCount st) = dfs_visited st"
  "dfs_stack (inc_comparisons st) = dfs_stack st"
  "dfs_visited (inc_comparisons st) = dfs_visited st"
  "dfs_stack (push_step d l ds opn st) = dfs_stack st"
  "dfs_visited (push_step d l ds opn st) = dfs_visited st"
  by (simp_all add: set_node_def set_edge_def set_edge_opt_def reject_unless_solution_def
        inc_nodesVisited_def inc_edgesExamined_def inc_operationsCount_def inc_comparisons_def
        push_step_def split: option.splits)

lemma dfs_neighbor_stack_visited:
  "dfs_visited (dfs_neighbor g c n st) = dfs_visited st"
  "dfs_stack (dfs_neighbor g c n st) =
     (if n \<in> set (dfs_visited st) then dfs_stack st else n # dfs_stack st)"
  by (simp_all add: dfs_neighbor_def Let_def)

lemma dfs_neighbors_visited:
  "dfs_visited (dfs_neighbors g c ns st) = dfs_visited st"
  by (induction ns arbitrary: st) (auto simp: dfs_neighbor_stack_visited)

lemma dfs_neighbors_stack:
  "dfs_stack (dfs_neighbors g c ns st) =
     rev (filter (\<lambda>n. n \<notin> set (dfs_visited st)) (map fst ns)) @ dfs_stack st"
  by (induction ns arbitrary: st) (auto simp: dfs_neighbor_stack_visited)

lemma dfs_iter_visited:
  "dfs_visited (dfs_iter g al c st) = set_add c (dfs_visited st)"
  by (simp add: dfs_iter_def Let_def dfs_neighbors_visited set_add_def)

lemma dfs_iter_stack:
  "dfs_stack (dfs_iter g al c st) =
     (if c \<in> set (dfs_visited st) then dfs_stack st
      else filter (\<lambda>n. n \<noteq> c \<and> n \<notin> set (dfs_visited st)) (map fst (neighbors_of al c)) @ dfs_stack st)"
  by (simp add: dfs_iter_def Let_def dfs_neighbors_stack dfs_neighbors_visited set_add_def
        rev_filter rev_map [symmetric])

definition dfs_todo :: "adjlist \<Rightarrow> dfs_state \<Rightarrow> string set" where
  "dfs_todo al st = (adj_ids al \<union> set (dfs_stack st)) - set (dfs_visited st)"

lemma finite_dfs_todo: "finite (dfs_todo al st)"
  by (simp add: dfs_todo_def finite_adj_ids)

lemma dfs_iter_todo:
  assumes "dfs_stack st = c # rest"
  shows "dfs_todo al (dfs_iter g al c (st\<lparr>dfs_stack := rest\<rparr>)) \<subseteq> dfs_todo al st"
    and "c \<notin> set (dfs_visited st) \<Longrightarrow> dfs_todo al (dfs_iter g al c (st\<lparr>dfs_stack := rest\<rparr>)) \<subset> dfs_todo al st"
proof -
  have nb: "fst ` set (neighbors_of al c) \<subseteq> adj_ids al"
    using neighbors_of_adj_ids by fastforce
  show "dfs_todo al (dfs_iter g al c (st\<lparr>dfs_stack := rest\<rparr>)) \<subseteq> dfs_todo al st"
    using nb assms by (auto simp: dfs_todo_def dfs_iter_stack dfs_iter_visited set_add_def)
  assume nv: "c \<notin> set (dfs_visited st)"
  have "c \<in> dfs_todo al st" using assms nv by (simp add: dfs_todo_def)
  moreover have "c \<notin> dfs_todo al (dfs_iter g al c (st\<lparr>dfs_stack := rest\<rparr>))"
    by (simp add: dfs_todo_def dfs_iter_visited set_add_def)
  moreover have "dfs_todo al (dfs_iter g al c (st\<lparr>dfs_stack := rest\<rparr>)) \<subseteq> dfs_todo al st"
    using nb assms by (auto simp: dfs_todo_def dfs_iter_stack dfs_iter_visited set_add_def)
  ultimately show "dfs_todo al (dfs_iter g al c (st\<lparr>dfs_stack := rest\<rparr>)) \<subset> dfs_todo al st"
    by blast
qed

termination dfs_loop
proof (relation "measures [\<lambda>(g, al, st). card (dfs_todo al st),
                             \<lambda>(g, al, st). length (dfs_stack st)]")
  show "wf (measures [\<lambda>(g :: Graph, al, st). card (dfs_todo al st),
                      \<lambda>(g, al, st). length (dfs_stack st)])"
    by simp
next
  fix g :: Graph and al :: adjlist and st :: dfs_state and currentId rest
  assume stk: "dfs_stack st = currentId # rest"
  let ?st' = "dfs_iter g al currentId (st\<lparr>dfs_stack := rest\<rparr>)"
  show "((g, al, ?st'), (g, al, st)) \<in> measures [\<lambda>(g, al, st). card (dfs_todo al st),
                                                    \<lambda>(g, al, st). length (dfs_stack st)]"
  proof (cases "currentId \<in> set (dfs_visited st)")
    case True
    have "card (dfs_todo al ?st') \<le> card (dfs_todo al st)"
      using dfs_iter_todo(1) [OF stk] finite_dfs_todo by (simp add: card_mono)
    moreover have "length (dfs_stack ?st') < length (dfs_stack st)"
      using True stk by (simp add: dfs_iter_stack)
    ultimately show ?thesis by auto
  next
    case False
    have "card (dfs_todo al ?st') < card (dfs_todo al st)"
      using dfs_iter_todo(2) [OF stk False] finite_dfs_todo by (simp add: psubset_card_mono)
    then show ?thesis by simp
  qed
qed

declare dfs_loop.simps [simp del]

text \<open>\<open>dfs_run\<close> is the executor's state when the while loop has ended.\<close>

definition dfs_run :: "Graph \<Rightarrow> string \<Rightarrow> dfs_state" where
  "dfs_run g startId =
     (let adjList = toAdjacencyList g;
          st0 = \<lparr>nstates = init_nstates g, estates = init_estates g, mets = zero_metrics,
                 steps = [], dfs_stack = [startId], dfs_visited = []\<rparr>;
          st1 = set_node startId VISITING (inc_operationsCount st0);
          st2 = push_step [T ''Start DFS from node '', L (label_of g startId), T ''. Push to stack.'']
                  2 (dfs_views g st1) [T ''Initialize''] st1
      in dfs_loop g adjList st2)"

definition executeDFS :: "Graph \<Rightarrow> AlgorithmParams \<Rightarrow> AlgorithmStep list" where
  "executeDFS g params =
     (if falsy_id (startNodeId params) \<or> find (\<lambda>n. nid n = the (startNodeId params)) (nodes g) = None
      then []
      else
        let startId = the (startNodeId params);
            st3 = dfs_run g startId;
            st4 = foldl (\<lambda>s i. set_node i IN_SOLUTION s) st3 (dfs_visited st3)
        in steps (push_step [T ''DFS complete. Visited '', K (length (dfs_visited st4)), T '' nodes.'']
                    9 [(''stack'', Labels []), (''visited'', Labels (map (label_of g) (dfs_visited st4)))]
                    [T ''Complete''] st4))"

section \<open>Numbers with Infinity, and the priority queues\<close>

fun num_less :: "number \<Rightarrow> number \<Rightarrow> bool" where
  "num_less (Num a) (Num b) = (a < b)"
| "num_less (Num a) Infinity = True"
| "num_less Infinity b = False"

definition num_le :: "number \<Rightarrow> number \<Rightarrow> bool" where
  "num_le a b = (\<not> num_less b a)"

fun num_add :: "number \<Rightarrow> number \<Rightarrow> number" where
  "num_add (Num a) (Num b) = Num (a + b)"
| "num_add (Num a) Infinity = Infinity"
| "num_add Infinity b = Infinity"

text \<open>\<open>v || d\<close> on a number that may be undefined: zero and undefined are falsy.\<close>

definition or_default :: "number option \<Rightarrow> number \<Rightarrow> number" where
  "or_default v d = (case v of None \<Rightarrow> d | Some n \<Rightarrow> if n = Num 0 then d else n)"

text \<open>
  \<open>items.sort((a, b) => a.priority - b.priority)\<close> is a stable sort by priority; two
  infinite priorities compare as equal.
\<close>

fun pq_insort :: "number \<times> string \<Rightarrow> (number \<times> string) list \<Rightarrow> (number \<times> string) list" where
  "pq_insort x [] = [x]"
| "pq_insort x (y # ys) = (if num_le (fst x) (fst y) then x # y # ys else y # pq_insort x ys)"

definition pq_sort :: "(number \<times> string) list \<Rightarrow> (number \<times> string) list" where
  "pq_sort xs = foldr pq_insort xs []"

definition pq_enqueue :: "string \<Rightarrow> number \<Rightarrow> (number \<times> string) list \<Rightarrow> (number \<times> string) list" where
  "pq_enqueue v p items = pq_sort (items @ [(p, v)])"

definition pq_view :: "Graph \<Rightarrow> (number \<times> string) list \<Rightarrow> dsval" where
  "pq_view g items = PQView (map (\<lambda>(p, v). (p, label_of g v)) items)"

section \<open>Dijkstra (algorithms/shortestPath/dijkstra.ts)\<close>

record dj_state = trace +
  dj_dist :: "(string \<times> number) list"
  dj_parent :: "(string \<times> string option) list"
  dj_visited :: "string list"
  dj_pq :: "(number \<times> string) list"
  dj_found :: bool

definition formatDist :: "Graph \<Rightarrow> (string \<times> number) list \<Rightarrow> dsval" where
  "formatDist g dst =
     NumTable (foldl (\<lambda>t n. AList.update (label n) (map_of dst (nid n)) t) [] (nodes g))"

definition dj_views :: "Graph \<Rightarrow> dj_state \<Rightarrow> (string \<times> dsval) list" where
  "dj_views g st =
     [(''distances'', formatDist g (dj_dist st)), (''priorityQueue'', pq_view g (dj_pq st))]"

text \<open>
  The walk along parent pointers, \<open>while (curr) { path.unshift(curr); curr = next(curr) }\<close>,
  which Dijkstra runs on \<open>parent\<close> and A* on \<open>cameFrom\<close>. It runs forever on a cyclic
  map, which is the value \<open>None\<close>. The empty string is falsy and ends the walk.
\<close>

partial_function (option) chain_walk ::
  "(string \<Rightarrow> string option) \<Rightarrow> string option \<Rightarrow> string list \<Rightarrow> string list option" where
  "chain_walk nxt cur pth =
     (case cur of
        None \<Rightarrow> Some pth
      | Some c \<Rightarrow> if c = [] then Some pth else chain_walk nxt (nxt c) (c # pth))"

declare chain_walk.simps [code]

text \<open>\<open>parent.get(curr) || null\<close> on a map whose values are ids or \<open>null\<close>.\<close>

definition parent_of :: "(string \<times> string option) list \<Rightarrow> string \<Rightarrow> string option" where
  "parent_of parent c = (case map_of parent c of None \<Rightarrow> None | Some p \<Rightarrow> p)"

fun mark_path :: "Graph \<Rightarrow> string option \<Rightarrow> string list \<Rightarrow> 'a trace_scheme \<Rightarrow> 'a trace_scheme" where
  "mark_path g prev [] st = st"
| "mark_path g prev (x # xs) st =
     mark_path g (Some x) xs
       (let st1 = set_node x IN_SOLUTION st
        in case prev of None \<Rightarrow> st1
           | Some p \<Rightarrow> set_edge_opt (getEdgeBetween g p x) E_IN_SOLUTION st1)"

definition dj_neighbor :: "Graph \<Rightarrow> string \<Rightarrow> string \<times> real \<Rightarrow> dj_state \<Rightarrow> dj_state" where
  "dj_neighbor g currentId nw st0 =
     (let neighborId = fst nw; w = snd nw in
      if neighborId \<in> set (dj_visited st0) then st0
      else
        let edge = getEdgeBetween g currentId neighborId;
            st1 = inc_operationsCount (inc_comparisons (inc_edgesExamined st0));
            st2 = set_edge_opt edge EXAMINING st1;
            alt = num_add (or_default (map_of (dj_dist st2) currentId) (Num 0)) (Num w);
            currentNeighborDist = or_default (map_of (dj_dist st2) neighborId) Infinity;
            st3 = push_step [T ''Check edge '', L (label_of g currentId), T '' -> '',
                             L (label_of g neighborId), T '' (weight: '', R w,
                             T ''). New distance: '', NumF alt, T '', Current: '',
                             NumF currentNeighborDist] 10 (dj_views g st2)
                            [T ''Relax edge to '', L (label_of g neighborId)] st2
        in if num_less alt currentNeighborDist then
             (let st4 = st3\<lparr>dj_dist := AList.update neighborId alt (dj_dist st3),
                            dj_parent := AList.update neighborId (Some currentId) (dj_parent st3),
                            dj_pq := pq_enqueue neighborId alt (dj_pq st3)\<rparr>;
                  st5 = (if map_of (nstates st4) neighborId \<noteq> Some VISITED
                         then set_node neighborId VISITING st4 else st4)
              in push_step [T ''Update distance to '', L (label_of g neighborId), T '': '',
                            NumF alt, T '' (via '', L (label_of g currentId), T '')''] 12
                           (dj_views g st5) [T ''Update '', L (label_of g neighborId)] st5)
           else set_edge_opt edge REJECTED st3)"

definition dj_reach_target :: "Graph \<Rightarrow> string \<Rightarrow> number \<Rightarrow> dj_state \<Rightarrow> dj_state option" where
  "dj_reach_target g currentId currentDist st0 =
     (let st1 = set_node currentId IN_SOLUTION st0
      in case chain_walk (parent_of (dj_parent st1)) (Some currentId) [] of
           None \<Rightarrow> None
         | Some path \<Rightarrow>
             let st2 = mark_path g None path st1
             in Some ((push_step [T ''Target '', L (label_of g currentId),
                                  T '' reached! Shortest path distance: '', NumF currentDist,
                                  T ''. Path: '', Joined '' -> '' (map (label_of g) path)] 7
                                 [(''distances'', formatDist g (dj_dist st2)),
                                  (''path'', Labels (map (label_of g) path))]
                                 [T ''Path Found''] st2)\<lparr>dj_found := True\<rparr>))"

definition dj_extract :: "Graph \<Rightarrow> number \<times> string \<Rightarrow> dj_state \<Rightarrow> dj_state" where
  "dj_extract g current st1 =
     (let currentId = snd current; currentDist = fst current;
          st2 = st1\<lparr>dj_visited := set_add currentId (dj_visited st1)\<rparr>;
          st3 = set_node currentId CURRENT (inc_nodesVisited 1 st2)
      in push_step [T ''Extract minimum: node '', L (label_of g currentId),
                    T '' with distance '', NumF currentDist] 6 (dj_views g st3)
                   [T ''Process '', L (label_of g currentId)] st3)"

definition dj_iter ::
  "Graph \<Rightarrow> adjlist \<Rightarrow> string option \<Rightarrow> number \<times> string \<Rightarrow> dj_state \<Rightarrow> dj_state option" where
  "dj_iter g al endId current st0 =
     (let currentId = snd current; currentDist = fst current;
          st1 = inc_comparisons (inc_operationsCount st0)
      in if num_less (or_default (map_of (dj_dist st1) currentId) Infinity) currentDist then Some st1
         else if currentId \<in> set (dj_visited st1) then Some st1
         else
           let st4 = dj_extract g current st1
           in if \<not> falsy_id endId \<and> Some currentId = endId
              then dj_reach_target g currentId currentDist st4
              else Some (set_node currentId VISITED
                           (foldl (\<lambda>s nw. dj_neighbor g currentId nw s) st4
                                  (neighbors_of al currentId))))"

function dj_loop :: "Graph \<Rightarrow> adjlist \<Rightarrow> string option \<Rightarrow> dj_state \<Rightarrow> dj_state option" where
  "dj_loop g al endId st =
     (if dj_found st then Some st
      else case dj_pq st of
             [] \<Rightarrow> Some st
           | current # q \<Rightarrow>
               (case dj_iter g al endId current (st\<lparr>dj_pq := q\<rparr>) of
                  None \<Rightarrow> None
                | Some st' \<Rightarrow> dj_loop g al endId st'))"
  by pat_completeness auto


lemma dj_fields_prims [simp]:
  "dj_dist (set_node i v st) = dj_dist st"
  "dj_dist (set_edge j ev st) = dj_dist st"
  "dj_dist (set_edge_opt e ev st) = dj_dist st"
  "dj_dist (reject_unless_solution e st) = dj_dist st"
  "dj_dist (inc_nodesVisited k st) = dj_dist st"
  "dj_dist (inc_edgesExamined st) = dj_dist st"
  "dj_dist (inc_operationsCount st) = dj_dist st"
  "dj_dist (inc_comparisons st) = dj_dist st"
  "dj_dist (push_step d l ds opn st) = dj_dist st"
  "dj_parent (set_node i v st) = dj_parent st"
  "dj_parent (set_edge j ev st) = dj_parent st"
  "dj_parent (set_edge_opt e ev st) = dj_parent st"
  "dj_parent (reject_unless_solution e st) = dj_parent st"
  "dj_parent (inc_nodesVisited k st) = dj_parent st"
  "dj_parent (inc_edgesExamined st) = dj_parent st"
  "dj_parent (inc_operationsCount st) = dj_parent st"
  "dj_parent (inc_comparisons st) = dj_parent st"
  "dj_parent (push_step d l ds opn st) = dj_parent st"
  "dj_visited (set_node i v st) = dj_visited st"
  "dj_visited (set_edge j ev st) = dj_visited st"
  "dj_visited (set_edge_opt e ev st) = dj_visited st"
  "dj_visited (reject_unless_solution e st) = dj_visited st"
  "dj_visited (inc_nodesVisited k st) = dj_visited st"
  "dj_visited (inc_edgesExamined st) = dj_visited st"
  "dj_visited (inc_operationsCount st) = dj_visited st"
  "dj_visited (inc_comparisons st) = dj_visited st"
  "dj_visited (push_step d l ds opn st) = dj_visited st"
  "dj_pq (set_node i v st) = dj_pq st"
  "dj_pq (set_edge j ev st) = dj_pq st"
  "dj_pq (set_edge_opt e ev st) = dj_pq st"
  "dj_pq (reject_unless_solution e st) = dj_pq st"
  "dj_pq (inc_nodesVisited k st) = dj_pq st"
  "dj_pq (inc_edgesExamined st) = dj_pq st"
  "dj_pq (inc_operationsCount st) = dj_pq st"
  "dj_pq (inc_comparisons st) = dj_pq st"
  "dj_pq (push_step d l ds opn st) = dj_pq st"
  "dj_found (set_node i v st) = dj_found st"
  "dj_found (set_edge j ev st) = dj_found st"
  "dj_found (set_edge_opt e ev st) = dj_found st"
  "dj_found (reject_unless_solution e st) = dj_found st"
  "dj_found (inc_nodesVisited k st) = dj_found st"
  "dj_found (inc_edgesExamined st) = dj_found st"
  "dj_found (inc_operationsCount st) = dj_found st"
  "dj_found (inc_comparisons st) = dj_found st"
  "dj_found (push_step d l ds opn st) = dj_found st"
  by (simp_all add: set_node_def set_edge_def set_edge_opt_def reject_unless_solution_def
        inc_nodesVisited_def inc_edgesExamined_def inc_operationsCount_def inc_comparisons_def
        push_step_def split: option.splits)

lemma dj_fields_mark_path [simp]:
  "dj_dist (mark_path g pv xs st) = dj_dist st"
  "dj_parent (mark_path g pv xs st) = dj_parent st"
  "dj_visited (mark_path g pv xs st) = dj_visited st"
  "dj_pq (mark_path g pv xs st) = dj_pq st"
  "dj_found (mark_path g pv xs st) = dj_found st"
  by (induction g pv xs st rule: mark_path.induct; simp add: Let_def split: option.splits)+

lemma set_pq_insort [simp]: "set (pq_insort x ys) = insert x (set ys)"
  by (induction ys) auto

lemma length_pq_insort [simp]: "length (pq_insort x ys) = Suc (length ys)"
  by (induction ys) auto

lemma set_pq_sort [simp]: "set (pq_sort xs) = set xs"
  by (induction xs) (simp_all add: pq_sort_def)

lemma length_pq_sort [simp]: "length (pq_sort xs) = length xs"
  by (induction xs) (simp_all add: pq_sort_def)

lemma set_pq_enqueue [simp]: "set (pq_enqueue v p items) = insert (p, v) (set items)"
  by (simp add: pq_enqueue_def)

lemma length_pq_enqueue [simp]: "length (pq_enqueue v p items) = Suc (length items)"
  by (simp add: pq_enqueue_def)

definition dj_todo :: "adjlist \<Rightarrow> dj_state \<Rightarrow> string set" where
  "dj_todo al st = (adj_ids al \<union> snd ` set (dj_pq st)) - set (dj_visited st)"

lemma finite_dj_todo: "finite (dj_todo al st)"
  by (simp add: dj_todo_def finite_adj_ids)

lemma dj_neighbor_visited [simp]: "dj_visited (dj_neighbor g c nw st) = dj_visited st"
  by (simp add: dj_neighbor_def Let_def)

lemma dj_neighbor_pq: "snd ` set (dj_pq (dj_neighbor g c nw st)) \<subseteq> insert (fst nw) (snd ` set (dj_pq st))"
  by (auto simp: dj_neighbor_def Let_def)

lemma dj_neighbors_visited [simp]:
  "dj_visited (foldl (\<lambda>s nw. dj_neighbor g c nw s) st ns) = dj_visited st"
  by (induction ns arbitrary: st) simp_all

lemma dj_neighbors_pq:
  "snd ` set (dj_pq (foldl (\<lambda>s nw. dj_neighbor g c nw s) st ns)) \<subseteq> fst ` set ns \<union> snd ` set (dj_pq st)"
proof (induction ns arbitrary: st)
  case Nil
  then show ?case by simp
next
  case (Cons a ns)
  show ?case using Cons [of "dj_neighbor g c a st"] dj_neighbor_pq [of g c a st] by auto
qed

lemma dj_reach_target_fields:
  assumes "dj_reach_target g c d st = Some st'"
  shows "dj_visited st' = dj_visited st" "dj_pq st' = dj_pq st"
  using assms by (auto simp: dj_reach_target_def Let_def split: option.splits)


lemma dj_extract_fields [simp]:
  "dj_visited (dj_extract g cur st) = set_add (snd cur) (dj_visited st)"
  "dj_pq (dj_extract g cur st) = dj_pq st"
  by (simp_all add: dj_extract_def Let_def)

definition dj_stale :: "number \<times> string \<Rightarrow> dj_state \<Rightarrow> bool" where
  "dj_stale cur st = (num_less (or_default (map_of (dj_dist st) (snd cur)) Infinity) (fst cur)
                      \<or> snd cur \<in> set (dj_visited st))"

lemma dj_iter_stale:
  "dj_stale cur st \<Longrightarrow> dj_iter g al e cur st = Some (inc_comparisons (inc_operationsCount st))"
  by (auto simp add: dj_iter_def dj_stale_def Let_def)

lemma dj_iter_fresh:
  "\<not> dj_stale cur st \<Longrightarrow> dj_iter g al e cur st =
     (let st4 = dj_extract g cur (inc_comparisons (inc_operationsCount st))
      in if \<not> falsy_id e \<and> Some (snd cur) = e
         then dj_reach_target g (snd cur) (fst cur) st4
         else Some (set_node (snd cur) VISITED
                      (foldl (\<lambda>s nw. dj_neighbor g (snd cur) nw s) st4 (neighbors_of al (snd cur)))))"
  by (simp add: dj_iter_def dj_stale_def Let_def)

lemma dj_iter_visit:
  assumes "dj_iter g al e cur st = Some st'" and fresh: "\<not> dj_stale cur st"
  shows "set (dj_visited st') = insert (snd cur) (set (dj_visited st))"
    and "snd ` set (dj_pq st') \<subseteq> adj_ids al \<union> snd ` set (dj_pq st)"
proof -
  have nb: "fst ` set (neighbors_of al (snd cur)) \<subseteq> adj_ids al"
    using neighbors_of_adj_ids by fastforce
  let ?st4 = "dj_extract g cur (inc_comparisons (inc_operationsCount st))"
  show "set (dj_visited st') = insert (snd cur) (set (dj_visited st))"
  proof (cases "\<not> falsy_id e \<and> Some (snd cur) = e")
    case True
    then have "dj_reach_target g (snd cur) (fst cur) ?st4 = Some st'"
      using assms by (simp add: dj_iter_fresh Let_def)
    then show ?thesis by (auto simp add: dj_reach_target_fields set_add_def)
  next
    case False
    then have "st' = set_node (snd cur) VISITED
                      (foldl (\<lambda>s nw. dj_neighbor g (snd cur) nw s) ?st4 (neighbors_of al (snd cur)))"
      using assms by (auto simp add: dj_iter_fresh Let_def)
    then show ?thesis by (auto simp add: set_add_def)
  qed
  show "snd ` set (dj_pq st') \<subseteq> adj_ids al \<union> snd ` set (dj_pq st)"
  proof (cases "\<not> falsy_id e \<and> Some (snd cur) = e")
    case True
    then have "dj_reach_target g (snd cur) (fst cur) ?st4 = Some st'"
      using assms by (simp add: dj_iter_fresh Let_def)
    then show ?thesis by (auto simp add: dj_reach_target_fields)
  next
    case False
    then have "st' = set_node (snd cur) VISITED
                      (foldl (\<lambda>s nw. dj_neighbor g (snd cur) nw s) ?st4 (neighbors_of al (snd cur)))"
      using assms by (auto simp add: dj_iter_fresh Let_def)
    then have "snd ` set (dj_pq st') \<subseteq> fst ` set (neighbors_of al (snd cur)) \<union> snd ` set (dj_pq ?st4)"
      using dj_neighbors_pq [of g "snd cur" ?st4 "neighbors_of al (snd cur)"] by simp
    then show ?thesis using nb by auto
  qed
qed

termination dj_loop
proof (relation "measures [\<lambda>(g, al, e, st). card (dj_todo al st),
                             \<lambda>(g, al, e, st). length (dj_pq st)]")
  show "wf (measures [\<lambda>(g :: Graph, al, e :: string option, st). card (dj_todo al st),
                      \<lambda>(g, al, e, st). length (dj_pq st)])"
    by simp
next
  fix g :: Graph and al :: adjlist and e :: "string option" and st st' :: dj_state
    and current :: "number \<times> string" and q
  assume pq: "dj_pq st = current # q"
    and it: "dj_iter g al e current (st\<lparr>dj_pq := q\<rparr>) = Some st'"
  let ?st0 = "st\<lparr>dj_pq := q\<rparr>"
  show "((g, al, e, st'), (g, al, e, st)) \<in> measures [\<lambda>(g, al, e, st). card (dj_todo al st),
                                                      \<lambda>(g, al, e, st). length (dj_pq st)]"
  proof (cases "dj_stale current ?st0")
    case True
    then have st': "st' = inc_comparisons (inc_operationsCount ?st0)"
      using it by (simp add: dj_iter_stale)
    have "dj_todo al st' \<subseteq> dj_todo al st"
      using pq by (auto simp: st' dj_todo_def)
    then have "card (dj_todo al st') \<le> card (dj_todo al st)"
      using finite_dj_todo by (simp add: card_mono)
    moreover have "length (dj_pq st') < length (dj_pq st)"
      using pq by (simp add: st')
    ultimately show ?thesis by auto
  next
    case False
    then have nv: "snd current \<notin> set (dj_visited st)" by (simp add: dj_stale_def)
    have v: "set (dj_visited st') = insert (snd current) (set (dj_visited st))"
      using dj_iter_visit(1) [OF it False] by simp
    have p: "snd ` set (dj_pq st') \<subseteq> adj_ids al \<union> snd ` set q"
      using dj_iter_visit(2) [OF it False] by simp
    have "snd current \<in> dj_todo al st" using pq nv by (simp add: dj_todo_def)
    moreover have "snd current \<notin> dj_todo al st'" using v by (simp add: dj_todo_def)
    moreover have "dj_todo al st' \<subseteq> dj_todo al st"
      using v p pq by (auto simp: dj_todo_def)
    ultimately have "dj_todo al st' \<subset> dj_todo al st" by blast
    then have "card (dj_todo al st') < card (dj_todo al st)"
      using finite_dj_todo by (simp add: psubset_card_mono)
    then show ?thesis by simp
  qed
qed

declare dj_loop.simps [simp del]

definition dj_init :: "Graph \<Rightarrow> string \<Rightarrow> dj_state" where
  "dj_init g startId =
     (let st0 = \<lparr>nstates = init_nstates g, estates = init_estates g, mets = zero_metrics, steps = [],
                 dj_dist = foldl (\<lambda>m n. AList.update (nid n)
                                        (if nid n = startId then Num 0 else Infinity) m) [] (nodes g),
                 dj_parent = foldl (\<lambda>m n. AList.update (nid n) None m) [] (nodes g),
                 dj_visited = [], dj_pq = pq_enqueue startId (Num 0) [], dj_found = False\<rparr>;
          st1 = inc_operationsCount (set_node startId VISITING st0)
      in push_step [T ''Initialize: Set distance to '', L (label_of g startId),
                    T '' = 0, all others = Infinity''] 1 (dj_views g st1) [T ''Initialize''] st1)"

definition dj_finish :: "Graph \<Rightarrow> string \<Rightarrow> string option \<Rightarrow> dj_state \<Rightarrow> AlgorithmStep list" where
  "dj_finish g startId endId st3 =
     (if dj_found st3 then steps st3
      else if falsy_id endId then
        (let st4 = foldl (\<lambda>s n. if map_of (dj_dist s) (nid n) \<noteq> Some Infinity
                                  then set_node (nid n) IN_SOLUTION s else s) st3 (nodes g)
         in steps (push_step [T ''Dijkstra complete. Computed shortest paths from '',
                              L (label_of g startId), T '' to all reachable nodes.''] 14
                             [(''distances'', formatDist g (dj_dist st4))] [T ''Complete''] st4))
      else steps (push_step [T ''No path found from '', L (label_of g startId), T '' to '',
                             L (label_of g (the endId)), T ''.''] 5
                            [(''distances'', formatDist g (dj_dist st3))] [T ''No Path''] st3))"

text \<open>The result is \<open>None\<close> when the walk along the parent pointers does not end.\<close>

definition executeDijkstra :: "Graph \<Rightarrow> AlgorithmParams \<Rightarrow> AlgorithmStep list option" where
  "executeDijkstra g params =
     (if falsy_id (startNodeId params) \<or> find (\<lambda>n. nid n = the (startNodeId params)) (nodes g) = None
      then Some []
      else
        let startId = the (startNodeId params)
        in map_option (dj_finish g startId (endNodeId params))
             (dj_loop g (toAdjacencyList g) (endNodeId params) (dj_init g startId)))"

section \<open>Cycle detection (algorithms/other/cycleDetection.ts)\<close>

record cd_state = trace +
  cd_color :: "(string \<times> Color) list"
  cd_cycleFound :: bool
  cd_cycleEdge :: "(string \<times> string) option"

definition cd_views :: "Graph \<Rightarrow> cd_state \<Rightarrow> (string \<times> dsval) list" where
  "cd_views g st =
     [(''colors'', ColorTable (foldl (\<lambda>t ic. AList.update (label_of g (fst ic)) (snd ic) t) []
                                      (cd_color st)))]"

text \<open>
  The nested function \<open>dfs\<close> returns whether it found a cycle, together with the state it
  leaves. \<open>cd_neighbors\<close> is the rest of its loop over the neighbours. The labels
  \<open>node.label\<close> and \<open>neighborNode.label\<close> are read without a guard, so a missing node
  throws.
\<close>

definition cd_enter :: "Graph \<Rightarrow> Node \<Rightarrow> string \<Rightarrow> cd_state \<Rightarrow> cd_state" where
  "cd_enter g node nodeId st0 =
     (let st1 = st0\<lparr>cd_color := AList.update nodeId GRAY (cd_color st0)\<rparr>;
          st2 = inc_operationsCount (inc_nodesVisited 1 (set_node nodeId VISITING st1))
      in push_step [T ''Visit '', L (Some (label node)), T ''. Color GRAY (in current path).''] 9
                   (cd_views g st2) [T ''Visit '', L (Some (label node))] st2)"

definition cd_check :: "Graph \<Rightarrow> string \<Rightarrow> Node \<Rightarrow> string \<Rightarrow> cd_state \<Rightarrow> cd_state" where
  "cd_check g nodeId neighborNode neighborId st0 =
     (let edge = getEdgeBetween g nodeId neighborId;
          st1 = inc_comparisons (inc_edgesExamined st0);
          st2 = set_edge_opt edge EXAMINING st1
      in push_step [T ''Check neighbor '', L (Some (label neighborNode)), T ''. Color: '',
                    T (case map_of (cd_color st2) neighborId of
                         None \<Rightarrow> ''undefined'' | Some WHITE \<Rightarrow> ''white''
                       | Some GRAY \<Rightarrow> ''gray'' | Some BLACK \<Rightarrow> ''black''), T ''.''] 10
                   (cd_views g st2) [T ''Check '', L (Some (label neighborNode))] st2)"

definition cd_back_edge :: "Graph \<Rightarrow> Node \<Rightarrow> string \<Rightarrow> Node \<Rightarrow> string \<Rightarrow> cd_state \<Rightarrow> cd_state" where
  "cd_back_edge g node nodeId neighborNode neighborId st0 =
     (let edge = getEdgeBetween g nodeId neighborId;
          st1 = st0\<lparr>cd_cycleFound := True, cd_cycleEdge := Some (nodeId, neighborId)\<rparr>;
          st2 = set_node neighborId IN_SOLUTION (set_edge_opt edge E_IN_SOLUTION st1)
      in push_step [T ''CYCLE DETECTED! Back edge from '', L (Some (label node)), T '' to '',
                    L (Some (label neighborNode)), T '' (GRAY node).''] 11
                   [(''cycleEdge'', Phrase [L (Some (label node)), T '' -> '',
                                            L (Some (label neighborNode))])]
                   [T ''Cycle Found''] st2)"

definition cd_leave :: "Graph \<Rightarrow> Node \<Rightarrow> string \<Rightarrow> cd_state \<Rightarrow> cd_state" where
  "cd_leave g node nodeId st0 =
     (let st1 = st0\<lparr>cd_color := AList.update nodeId BLACK (cd_color st0)\<rparr>;
          st2 = set_node nodeId VISITED st1
      in push_step [T ''Finish '', L (Some (label node)), T ''. Color BLACK (completely processed).'']
                   13 (cd_views g st2) [T ''Finish '', L (Some (label node))] st2)"

function cd_dfs :: "Graph \<Rightarrow> adjlist \<Rightarrow> string \<Rightarrow> cd_state \<Rightarrow> error + (bool \<times> cd_state)"
  and cd_neighbors ::
    "Graph \<Rightarrow> adjlist \<Rightarrow> Node \<Rightarrow> string \<Rightarrow> (string \<times> real) list \<Rightarrow> cd_state \<Rightarrow> error + (bool \<times> cd_state)"
  where
  "cd_dfs g al nodeId st =
     (case getNode g nodeId of
        None \<Rightarrow> Inl TypeError
      | Some node \<Rightarrow> cd_neighbors g al node nodeId (neighbors_of al nodeId) (cd_enter g node nodeId st))"
| "cd_neighbors g al node nodeId [] st = Inr (False, cd_leave g node nodeId st)"
| "cd_neighbors g al node nodeId (nw # rest) st =
     (let neighborId = fst nw in
      case getNode g neighborId of
        None \<Rightarrow> Inl TypeError
      | Some neighborNode \<Rightarrow>
          let edge = getEdgeBetween g nodeId neighborId;
              st1 = cd_check g nodeId neighborNode neighborId st;
              neighborColor = map_of (cd_color st1) neighborId
          in if neighborColor = Some GRAY
             then Inr (True, cd_back_edge g node nodeId neighborNode neighborId st1)
             else if neighborColor = Some WHITE
             then (case cd_dfs g al neighborId (set_edge_opt edge E_IN_SOLUTION st1) of
                     Inl e \<Rightarrow> Inl e
                   | Inr (found, st2) \<Rightarrow>
                       if found then Inr (True, st2) else cd_neighbors g al node nodeId rest st2)
             else cd_neighbors g al node nodeId rest (set_edge_opt edge REJECTED st1))"
  by pat_completeness auto

lemma cd_fields_prims [simp]:
  "cd_color (set_node i v st) = cd_color st"
  "cd_color (set_edge j ev st) = cd_color st"
  "cd_color (set_edge_opt e ev st) = cd_color st"
  "cd_color (reject_unless_solution e st) = cd_color st"
  "cd_color (inc_nodesVisited k st) = cd_color st"
  "cd_color (inc_edgesExamined st) = cd_color st"
  "cd_color (inc_operationsCount st) = cd_color st"
  "cd_color (inc_comparisons st) = cd_color st"
  "cd_color (push_step d l ds opn st) = cd_color st"
  "cd_cycleFound (set_node i v st) = cd_cycleFound st"
  "cd_cycleFound (set_edge j ev st) = cd_cycleFound st"
  "cd_cycleFound (set_edge_opt e ev st) = cd_cycleFound st"
  "cd_cycleFound (reject_unless_solution e st) = cd_cycleFound st"
  "cd_cycleFound (inc_nodesVisited k st) = cd_cycleFound st"
  "cd_cycleFound (inc_edgesExamined st) = cd_cycleFound st"
  "cd_cycleFound (inc_operationsCount st) = cd_cycleFound st"
  "cd_cycleFound (inc_comparisons st) = cd_cycleFound st"
  "cd_cycleFound (push_step d l ds opn st) = cd_cycleFound st"
  "cd_cycleEdge (set_node i v st) = cd_cycleEdge st"
  "cd_cycleEdge (set_edge j ev st) = cd_cycleEdge st"
  "cd_cycleEdge (set_edge_opt e ev st) = cd_cycleEdge st"
  "cd_cycleEdge (reject_unless_solution e st) = cd_cycleEdge st"
  "cd_cycleEdge (inc_nodesVisited k st) = cd_cycleEdge st"
  "cd_cycleEdge (inc_edgesExamined st) = cd_cycleEdge st"
  "cd_cycleEdge (inc_operationsCount st) = cd_cycleEdge st"
  "cd_cycleEdge (inc_comparisons st) = cd_cycleEdge st"
  "cd_cycleEdge (push_step d l ds opn st) = cd_cycleEdge st"
  by (simp_all add: set_node_def set_edge_def set_edge_opt_def reject_unless_solution_def
        inc_nodesVisited_def inc_edgesExamined_def inc_operationsCount_def inc_comparisons_def
        push_step_def split: option.splits)

definition cd_whites :: "cd_state \<Rightarrow> string set" where
  "cd_whites st = {k \<in> fst ` set (cd_color st). map_of (cd_color st) k = Some WHITE}"

lemma finite_cd_whites: "finite (cd_whites st)"
  by (simp add: cd_whites_def)

lemma cd_whites_update:
  "c \<noteq> WHITE \<Longrightarrow> {k \<in> fst ` set (AList.update i c m). map_of (AList.update i c m) k = Some WHITE}
     = {k \<in> fst ` set m. map_of m k = Some WHITE} - {i}"
  by (auto simp: update_conv' dom_update [unfolded dom_map_of_conv_image_fst])

lemma cd_whites_enter [simp]: "cd_whites (cd_enter g node i st) = cd_whites st - {i}"
  by (simp add: cd_enter_def Let_def cd_whites_def cd_whites_update)

lemma cd_whites_leave [simp]: "cd_whites (cd_leave g node i st) = cd_whites st - {i}"
  by (simp add: cd_leave_def Let_def cd_whites_def cd_whites_update)

lemma cd_color_check [simp]: "cd_color (cd_check g i nn n st) = cd_color st"
  by (simp add: cd_check_def Let_def)

lemma cd_color_back_edge [simp]: "cd_color (cd_back_edge g node i nn n st) = cd_color st"
  by (simp add: cd_back_edge_def Let_def)

lemma cd_whites_same [simp]:
  "cd_whites (cd_check g i nn n st) = cd_whites st"
  "cd_whites (cd_back_edge g node i nn n st) = cd_whites st"
  "cd_whites (set_edge_opt e ev st) = cd_whites st"
  by (simp_all add: cd_whites_def)

lemma cd_whites_mono_dom:
  "cd_dfs_cd_neighbors_dom (Inl (g, al, i, st)) \<Longrightarrow> cd_dfs g al i st = Inr (b, st') \<Longrightarrow> cd_whites st' \<subseteq> cd_whites st"
  "cd_dfs_cd_neighbors_dom (Inr (g, al, node, i, ns, st)) \<Longrightarrow>
     cd_neighbors g al node i ns st = Inr (b, st') \<Longrightarrow> cd_whites st' \<subseteq> cd_whites st"
proof (induction g al i st and g al node i ns st arbitrary: b st' and b st' rule: cd_dfs_cd_neighbors.pinduct)
  case (1 g al nodeId st)
  from "1.prems" obtain node where node: "getNode g nodeId = Some node"
    and r: "cd_neighbors g al node nodeId (neighbors_of al nodeId) (cd_enter g node nodeId st) = Inr (b, st')"
    by (cases "getNode g nodeId") (simp_all add: cd_dfs.psimps [OF "1.hyps"])
  from "1.IH" [OF node r] show ?case by auto
next
  case (2 g al node nodeId st)
  then show ?case by (auto simp: cd_neighbors.psimps)
next
  case (3 g al node nodeId nw rest st)
  note ps = cd_neighbors.psimps(2) [OF "3.hyps"]
  have "getNode g (fst nw) \<noteq> None"
  proof
    assume "getNode g (fst nw) = None"
    then have "cd_neighbors g al node nodeId (nw # rest) st = Inl TypeError"
      by (subst ps) (simp only: Let_def option.case)
    with "3.prems" show False by simp
  qed
  then obtain nn where nn: "getNode g (fst nw) = Some nn" by blast
  let ?edge = "getEdgeBetween g nodeId (fst nw)"
  let ?st1 = "cd_check g nodeId nn (fst nw) st"
  let ?nc = "map_of (cd_color ?st1) (fst nw)"
  show ?case
  proof (cases "?nc = Some GRAY")
    case True
    have "cd_neighbors g al node nodeId (nw # rest) st =
          Inr (True, cd_back_edge g node nodeId nn (fst nw) ?st1)"
      using True by (subst ps) (simp add: Let_def nn)
    then have "st' = cd_back_edge g node nodeId nn (fst nw) ?st1"
      using "3.prems" by simp
    then show ?thesis by simp
  next
    case ng: False
    show ?thesis
    proof (cases "?nc = Some WHITE")
      case True
      let ?st1' = "set_edge_opt ?edge E_IN_SOLUTION ?st1"
      have w1': "cd_whites ?st1' = cd_whites st" by simp
      have "cd_neighbors g al node nodeId (nw # rest) st =
               (case cd_dfs g al (fst nw) ?st1' of Inl e \<Rightarrow> Inl e
                 | Inr (found, st2) \<Rightarrow> if found then Inr (True, st2)
                     else cd_neighbors g al node nodeId rest st2)"
        using True ng by (subst ps) (simp add: Let_def nn)
      then have eq: "(case cd_dfs g al (fst nw) ?st1' of Inl e \<Rightarrow> Inl e
                 | Inr (found, st2) \<Rightarrow> if found then Inr (True, st2)
                     else cd_neighbors g al node nodeId rest st2) = Inr (b, st')"
        using "3.prems" by simp
      then obtain found st2 where r: "cd_dfs g al (fst nw) ?st1' = Inr (found, st2)"
        by (cases "cd_dfs g al (fst nw) ?st1'") auto
      have s2: "cd_whites st2 \<subseteq> cd_whites st"
        using "3.IH"(1) [OF refl nn refl refl refl ng True r] w1' by simp
      show ?thesis
      proof (cases found)
        case True
        then show ?thesis using eq r s2 by simp
      next
        case False
        then have "cd_neighbors g al node nodeId rest st2 = Inr (b, st')"
          using eq r by simp
        then have "cd_whites st' \<subseteq> cd_whites st2"
          using "3.IH"(2) [OF refl nn refl refl refl ng True r refl False] by simp
        then show ?thesis using s2 by blast
      qed
    next
      case False
      let ?st1' = "set_edge_opt ?edge REJECTED ?st1"
      have "cd_neighbors g al node nodeId (nw # rest) st = cd_neighbors g al node nodeId rest ?st1'"
        using False ng by (subst ps) (simp add: Let_def nn)
      then have "cd_neighbors g al node nodeId rest ?st1' = Inr (b, st')"
        using "3.prems" by simp
      then have "cd_whites st' \<subseteq> cd_whites ?st1'"
        using "3.IH"(3) [OF refl nn refl refl refl ng False] by simp
      then show ?thesis by simp
    qed
  qed
qed

lemma cd_whites_member:
  "map_of (cd_color st) i = Some WHITE \<Longrightarrow> i \<in> cd_whites st"
  by (auto simp: cd_whites_def dest: map_of_SomeD intro: rev_image_eqI)

termination cd_dfs
proof (relation "measures
    [\<lambda>x. case x of Inl (g, al, i, st) \<Rightarrow> card (cd_whites st - {i}) + 1
                 | Inr (g, al, node, i, ns, st) \<Rightarrow> card (cd_whites st),
     \<lambda>x. case x of Inl _ \<Rightarrow> 0 | Inr (g, al, node, i, ns, st) \<Rightarrow> length ns + 1]",
    goal_cases)
  case 1
  show ?case by simp
next
  case (2 g al nodeId st x2)
  show ?case by simp
next
  case (3 g al node nodeId nw rest st x x2 xa xb xc)
  then have "x \<in> cd_whites st"
    using cd_whites_member [of "cd_check g nodeId x2 x st" x] by simp
  then have "card (cd_whites st - {x}) + 1 = card (cd_whites st)"
    using card_Suc_Diff1 [OF finite_cd_whites, of x st] by simp
  moreover have "cd_whites xb = cd_whites st" using 3 by simp
  ultimately show ?case by simp
next
  case (4 g al node nodeId nw rest st x x2 xa xb xc b xd y)
  then have "cd_whites y \<subseteq> cd_whites st"
    using cd_whites_mono_dom(1) [of g al x "set_edge_opt xa E_IN_SOLUTION xb" xd y] by simp
  then have "card (cd_whites y) \<le> card (cd_whites st)"
    by (simp add: card_mono finite_cd_whites)
  then show ?case by auto
next
  case (5 g al node nodeId nw rest st x x2 xa xb xc)
  then show ?case by simp
qed

declare cd_dfs.simps [simp del] cd_neighbors.simps [simp del]

fun cd_roots :: "Graph \<Rightarrow> adjlist \<Rightarrow> Node list \<Rightarrow> cd_state \<Rightarrow> error + cd_state" where
  "cd_roots g al [] st = Inr st"
| "cd_roots g al (node # rest) st =
     (if map_of (cd_color st) (nid node) = Some WHITE then
        (let st1 = push_step [T ''Start DFS from unvisited node '', L (Some (label node)), T ''.''] 3
                     (cd_views g st) [T ''Start from '', L (Some (label node))] st
         in case cd_dfs g al (nid node) st1 of
              Inl e \<Rightarrow> Inl e
            | Inr (found, st2) \<Rightarrow> if found then Inr st2 else cd_roots g al rest st2)
      else cd_roots g al rest st)"

definition cd_init :: "Graph \<Rightarrow> cd_state" where
  "cd_init g =
     (let st0 = \<lparr>nstates = init_nstates g, estates = init_estates g, mets = zero_metrics, steps = [],
                 cd_color = foldl (\<lambda>m n. AList.update (nid n) WHITE m) [] (nodes g),
                 cd_cycleFound = False, cd_cycleEdge = None\<rparr>
      in push_step [T ''Initialize: Color all vertices WHITE.''] 1 (cd_views g st0)
                   [T ''Initialize''] st0)"

definition cd_finish :: "Graph \<Rightarrow> cd_state \<Rightarrow> AlgorithmStep list" where
  "cd_finish g st =
     (if cd_cycleFound st then
        steps (push_step [T ''Cycle detection complete. CYCLE FOUND via edge '',
                          L (label_of g (fst (the (cd_cycleEdge st)))), T '' -> '',
                          L (label_of g (snd (the (cd_cycleEdge st))))] 5
                         [(''hasCycle'', Flag True)] [T ''Complete - Cycle Found''] st)
      else
        (let st1 = foldl (\<lambda>s n. set_node (nid n) IN_SOLUTION s) st (nodes g)
         in steps (push_step [T ''Cycle detection complete. NO CYCLE found. Graph is acyclic.''] 6
                             [(''hasCycle'', Flag False)] [T ''Complete - No Cycle''] st1)))"

definition executeCycleDetection :: "Graph \<Rightarrow> AlgorithmParams \<Rightarrow> error + AlgorithmStep list" where
  "executeCycleDetection g params =
     (case cd_roots g (toAdjacencyList g) (nodes g) (cd_init g) of
        Inl e \<Rightarrow> Inl e
      | Inr st \<Rightarrow> Inr (cd_finish g st))"

section \<open>Topological sort (algorithms/other/topological.ts)\<close>

record ts_state = trace +
  ts_inDegree :: "(string \<times> int) list"
  ts_queue :: "string list"
  ts_result :: "string list"

text \<open>\<open>inDegree.get(k) || 0\<close>: an absent entry counts as zero.\<close>

definition degree_or_zero :: "(string \<times> int) list \<Rightarrow> string \<Rightarrow> int" where
  "degree_or_zero m k = (case map_of m k of None \<Rightarrow> 0 | Some d \<Rightarrow> d)"

definition formatInDegrees :: "Graph \<Rightarrow> (string \<times> int) list \<Rightarrow> dsval" where
  "formatInDegrees g m =
     IntTable (foldl (\<lambda>t n. AList.update (label n) (degree_or_zero m (nid n)) t) [] (nodes g))"

definition ts_views :: "Graph \<Rightarrow> ts_state \<Rightarrow> (string \<times> dsval) list" where
  "ts_views g st =
     [(''inDegrees'', formatInDegrees g (ts_inDegree st)),
      (''queue'', Labels (map (label_of g) (ts_queue st))),
      (''result'', Labels (map (label_of g) (ts_result st)))]"

definition ts_edge :: "Graph \<Rightarrow> Edge \<Rightarrow> ts_state \<Rightarrow> error + ts_state" where
  "ts_edge g edge st0 =
     (let neighborId = target edge in
      case getNode g neighborId of
        None \<Rightarrow> Inl TypeError
      | Some neighborNode \<Rightarrow>
          let st1 = set_edge (eid edge) E_IN_SOLUTION (inc_edgesExamined st0);
              newDegree = degree_or_zero (ts_inDegree st1) neighborId - 1;
              st2 = st1\<lparr>ts_inDegree := AList.update neighborId newDegree (ts_inDegree st1)\<rparr>;
              st3 = push_step [T ''Decrement in-degree of '', L (Some (label neighborNode)),
                               T '' to '', Z newDegree, T ''.''] 8 (ts_views g st2)
                              [T ''Update '', L (Some (label neighborNode))] st2
          in if newDegree = 0 then
               (let st4 = set_node neighborId VISITING (st3\<lparr>ts_queue := ts_queue st3 @ [neighborId]\<rparr>)
                in Inr (push_step [L (Some (label neighborNode)), T '' has in-degree 0. Add to queue.'']
                                  9 (ts_views g st4)
                                  [T ''Enqueue '', L (Some (label neighborNode))] st4))
             else Inr st3)"

fun ts_edges :: "Graph \<Rightarrow> Edge list \<Rightarrow> ts_state \<Rightarrow> error + ts_state" where
  "ts_edges g [] st = Inr st"
| "ts_edges g (edge # rest) st =
     (case ts_edge g edge st of Inl e \<Rightarrow> Inl e | Inr st' \<Rightarrow> ts_edges g rest st')"

definition ts_iter :: "Graph \<Rightarrow> string \<Rightarrow> ts_state \<Rightarrow> error + ts_state" where
  "ts_iter g currentId st0 =
     (case getNode g currentId of
        None \<Rightarrow> Inl TypeError
      | Some currentNode \<Rightarrow>
          let st1 = st0\<lparr>ts_result := ts_result st0 @ [currentId]\<rparr>;
              st2 = set_node currentId CURRENT (inc_operationsCount (inc_nodesVisited 1 st1));
              st3 = push_step [T ''Dequeue '', L (Some (label currentNode)), T ''. Add to result.'']
                              5 (ts_views g st2) [T ''Process '', L (Some (label currentNode))] st2
          in case ts_edges g (filter (\<lambda>e. source e = currentId) (edges g)) st3 of
               Inl e \<Rightarrow> Inl e
             | Inr st4 \<Rightarrow> Inr (set_node currentId IN_SOLUTION st4))"

function ts_loop :: "Graph \<Rightarrow> ts_state \<Rightarrow> error + ts_state" where
  "ts_loop g st =
     (case ts_queue st of
        [] \<Rightarrow> Inr st
      | currentId # q \<Rightarrow>
          (case ts_iter g currentId (st\<lparr>ts_queue := q\<rparr>) of
             Inl e \<Rightarrow> Inl e
           | Inr st' \<Rightarrow> ts_loop g st'))"
  by pat_completeness auto

lemma ts_fields_prims [simp]:
  "ts_inDegree (set_node i v st) = ts_inDegree st"
  "ts_inDegree (set_edge j ev st) = ts_inDegree st"
  "ts_inDegree (set_edge_opt e ev st) = ts_inDegree st"
  "ts_inDegree (reject_unless_solution e st) = ts_inDegree st"
  "ts_inDegree (inc_nodesVisited k st) = ts_inDegree st"
  "ts_inDegree (inc_edgesExamined st) = ts_inDegree st"
  "ts_inDegree (inc_operationsCount st) = ts_inDegree st"
  "ts_inDegree (inc_comparisons st) = ts_inDegree st"
  "ts_inDegree (push_step d l ds opn st) = ts_inDegree st"
  "ts_queue (set_node i v st) = ts_queue st"
  "ts_queue (set_edge j ev st) = ts_queue st"
  "ts_queue (set_edge_opt e ev st) = ts_queue st"
  "ts_queue (reject_unless_solution e st) = ts_queue st"
  "ts_queue (inc_nodesVisited k st) = ts_queue st"
  "ts_queue (inc_edgesExamined st) = ts_queue st"
  "ts_queue (inc_operationsCount st) = ts_queue st"
  "ts_queue (inc_comparisons st) = ts_queue st"
  "ts_queue (push_step d l ds opn st) = ts_queue st"
  "ts_result (set_node i v st) = ts_result st"
  "ts_result (set_edge j ev st) = ts_result st"
  "ts_result (set_edge_opt e ev st) = ts_result st"
  "ts_result (reject_unless_solution e st) = ts_result st"
  "ts_result (inc_nodesVisited k st) = ts_result st"
  "ts_result (inc_edgesExamined st) = ts_result st"
  "ts_result (inc_operationsCount st) = ts_result st"
  "ts_result (inc_comparisons st) = ts_result st"
  "ts_result (push_step d l ds opn st) = ts_result st"
  by (simp_all add: set_node_def set_edge_def set_edge_opt_def reject_unless_solution_def
        inc_nodesVisited_def inc_edgesExamined_def inc_operationsCount_def inc_comparisons_def
        push_step_def split: option.splits)

definition ts_positive :: "(string \<times> int) list \<Rightarrow> string set" where
  "ts_positive m = {k \<in> fst ` set m. 0 < degree_or_zero m k}"

definition ts_measure :: "ts_state \<Rightarrow> nat" where
  "ts_measure st = length (ts_queue st) + card (ts_positive (ts_inDegree st))"

lemma finite_ts_positive: "finite (ts_positive m)"
  by (simp add: ts_positive_def)

lemma ts_positive_update:
  "ts_positive (AList.update k d m) = (if 0 < d then insert k (ts_positive m) else ts_positive m - {k})"
  by (auto simp: ts_positive_def degree_or_zero_def update_conv'
           dom_update [unfolded dom_map_of_conv_image_fst])

lemma ts_positive_member:
  "0 < degree_or_zero m k \<Longrightarrow> k \<in> ts_positive m"
  by (auto simp: ts_positive_def degree_or_zero_def split: option.splits
           dest: map_of_SomeD intro: rev_image_eqI)

lemma ts_edge_measure:
  assumes "ts_edge g e st = Inr st'"
  shows "ts_measure st' = ts_measure st"
proof -
  from assms obtain nn where nn: "getNode g (target e) = Some nn"
    by (cases "getNode g (target e)") (simp_all add: ts_edge_def Let_def)
  let ?d = "degree_or_zero (ts_inDegree st) (target e)"
  show ?thesis
  proof (cases "?d - 1 = 0")
    case True
    then have pos: "target e \<in> ts_positive (ts_inDegree st)"
      by (intro ts_positive_member) simp
    have q: "ts_queue st' = ts_queue st @ [target e]"
      and d: "ts_inDegree st' = AList.update (target e) 0 (ts_inDegree st)"
      using assms nn True by (auto simp: ts_edge_def Let_def)
    have "card (ts_positive (ts_inDegree st) - {target e}) + 1 = card (ts_positive (ts_inDegree st))"
      using card_Suc_Diff1 [OF finite_ts_positive pos] by simp
    then show ?thesis by (simp add: ts_measure_def q d ts_positive_update)
  next
    case False
    have q: "ts_queue st' = ts_queue st"
      and d: "ts_inDegree st' = AList.update (target e) (?d - 1) (ts_inDegree st)"
      using assms nn False by (auto simp: ts_edge_def Let_def)
    show ?thesis
    proof (cases "0 < ?d - 1")
      case True
      then have "target e \<in> ts_positive (ts_inDegree st)"
        by (intro ts_positive_member) simp
      then have "insert (target e) (ts_positive (ts_inDegree st)) = ts_positive (ts_inDegree st)"
        by auto
      then show ?thesis using True by (simp add: ts_measure_def q d ts_positive_update)
    next
      case neg: False
      then have "\<not> 0 < ?d" using False by simp
      then have "target e \<notin> ts_positive (ts_inDegree st)"
        by (simp add: ts_positive_def)
      then show ?thesis using neg by (simp add: ts_measure_def q d ts_positive_update)
    qed
  qed
qed

lemma ts_edges_measure:
  "ts_edges g es st = Inr st' \<Longrightarrow> ts_measure st' = ts_measure st"
proof (induction es arbitrary: st)
  case Nil
  then show ?case by simp
next
  case (Cons e es)
  then obtain st1 where s1: "ts_edge g e st = Inr st1" and r: "ts_edges g es st1 = Inr st'"
    by (cases "ts_edge g e st") simp_all
  show ?case using Cons.IH [OF r] ts_edge_measure [OF s1] by simp
qed

lemma ts_iter_measure:
  assumes "ts_iter g c st = Inr st'"
  shows "ts_measure st' = ts_measure st"
proof -
  from assms obtain cn where cn: "getNode g c = Some cn"
    by (cases "getNode g c") (simp_all add: ts_iter_def)
  let ?st3 = "push_step [T ''Dequeue '', L (Some (label cn)), T ''. Add to result.'']
                 5 (ts_views g (set_node c CURRENT (inc_operationsCount (inc_nodesVisited 1 (st\<lparr>ts_result := ts_result st @ [c]\<rparr>)))))
                 [T ''Process '', L (Some (label cn))]
                 (set_node c CURRENT (inc_operationsCount (inc_nodesVisited 1 (st\<lparr>ts_result := ts_result st @ [c]\<rparr>))))"
  from assms cn obtain st4 where e: "ts_edges g (filter (\<lambda>e. source e = c) (edges g)) ?st3 = Inr st4"
    and s: "st' = set_node c IN_SOLUTION st4"
    by (cases "ts_edges g (filter (\<lambda>e. source e = c) (edges g)) ?st3")
       (simp_all add: ts_iter_def Let_def)
  have "ts_measure st4 = ts_measure ?st3" using ts_edges_measure [OF e] .
  then show ?thesis by (simp add: s ts_measure_def)
qed

termination ts_loop
proof (relation "measure (\<lambda>(g, st). ts_measure st)", goal_cases)
  case 1
  show ?case by simp
next
  case (2 g st currentId q st')
  then have "ts_measure st' = ts_measure (st\<lparr>ts_queue := q\<rparr>)"
    using ts_iter_measure by simp
  then show ?case using 2 by (simp add: ts_measure_def)
qed

declare ts_loop.simps [simp del]

definition ts_init :: "Graph \<Rightarrow> ts_state" where
  "ts_init g =
     (let st0 = \<lparr>nstates = init_nstates g, estates = init_estates g, mets = zero_metrics, steps = [],
                 ts_inDegree =
                   foldl (\<lambda>m e. AList.update (target e) (degree_or_zero m (target e) + 1) m)
                         (foldl (\<lambda>m n. AList.update (nid n) 0 m) [] (nodes g)) (edges g),
                 ts_queue = [], ts_result = []\<rparr>;
          st1 = push_step [T ''Calculate in-degree for each vertex.''] 1
                  [(''inDegrees'', formatInDegrees g (ts_inDegree st0))]
                  [T ''Calculate in-degrees''] st0;
          st2 = foldl (\<lambda>s n. if map_of (ts_inDegree s) (nid n) = Some 0
                               then set_node (nid n) VISITING (s\<lparr>ts_queue := ts_queue s @ [nid n]\<rparr>)
                               else s) st1 (nodes g)
      in push_step [T ''Initialize queue with nodes having in-degree 0: '',
                    Joined '', '' (map (label_of g) (ts_queue st2))] 2
                   [(''inDegrees'', formatInDegrees g (ts_inDegree st2)),
                    (''queue'', Labels (map (label_of g) (ts_queue st2)))]
                   [T ''Initialize queue''] st2)"

definition ts_finish :: "Graph \<Rightarrow> ts_state \<Rightarrow> AlgorithmStep list" where
  "ts_finish g st =
     (if length (ts_result st) < length (nodes g) then
        steps (push_step [T ''Cycle detected! Only '', K (length (ts_result st)), T '' of '',
                          K (length (nodes g)), T '' nodes processed.''] 10
                         [(''result'', Labels (map (label_of g) (ts_result st)))]
                         [T ''Cycle Detected''] st)
      else
        steps (push_step [T ''Topological sort complete: '',
                          Joined '' -> '' (map (label_of g) (ts_result st))] 10
                         [(''result'', Labels (map (label_of g) (ts_result st)))]
                         [T ''Complete''] st))"

definition executeTopologicalSort :: "Graph \<Rightarrow> AlgorithmParams \<Rightarrow> error + AlgorithmStep list" where
  "executeTopologicalSort g params =
     (if \<not> directed g then Inr []
      else case ts_loop g (ts_init g) of
             Inl e \<Rightarrow> Inl e
           | Inr st \<Rightarrow> Inr (ts_finish g st))"

section \<open>A* search (algorithms/shortestPath/astar.ts)\<close>

record as_state = trace +
  as_gScore :: "(string \<times> number) list"
  as_fScore :: "(string \<times> number) list"
  as_cameFrom :: "(string \<times> string) list"
  as_open :: "(number \<times> string) list"
  as_closed :: "string list"
  as_found :: bool

text \<open>
  The heuristic \<open>h\<close>: the distance to the goal node divided by 100. The parameter
  \<open>heuristic\<close> defaults to the Euclidean distance.
\<close>

definition as_h :: "Graph \<Rightarrow> Node \<Rightarrow> heuristic_kind option \<Rightarrow> string \<Rightarrow> number" where
  "as_h g endNode hk nodeId =
     (case getNode g nodeId of
        None \<Rightarrow> Infinity
      | Some node \<Rightarrow>
          Num (calculateDistance node endNode (case hk of None \<Rightarrow> Euclidean | Some k \<Rightarrow> k) / 100))"

definition formatScores :: "Graph \<Rightarrow> as_state \<Rightarrow> dsval" where
  "formatScores g st =
     ScoreTable (foldl (\<lambda>t n. AList.update (label n)
                                (map_of (as_gScore st) (nid n), map_of (as_fScore st) (nid n)) t)
                       [] (nodes g))"

definition as_open_view :: "Graph \<Rightarrow> as_state \<Rightarrow> dsval" where
  "as_open_view g st = Labels (map (\<lambda>i. label_of g (snd i)) (as_open st))"

fun mark_path_edges :: "Graph \<Rightarrow> string list \<Rightarrow> 'a trace_scheme \<Rightarrow> 'a trace_scheme" where
  "mark_path_edges g (x # y # rest) st =
     mark_path_edges g (y # rest) (set_edge_opt (getEdgeBetween g x y) E_IN_SOLUTION st)"
| "mark_path_edges g pth st = st"

definition as_neighbor ::
  "Graph \<Rightarrow> Node \<Rightarrow> heuristic_kind option \<Rightarrow> string \<Rightarrow> string \<times> real \<Rightarrow> as_state \<Rightarrow> error + as_state" where
  "as_neighbor g endNode hk currentId nw st0 =
     (let neighborId = fst nw; w = snd nw in
      if neighborId \<in> set (as_closed st0) then Inr st0
      else case getNode g neighborId of
        None \<Rightarrow> Inl TypeError
      | Some neighborNode \<Rightarrow>
          let edge = getEdgeBetween g currentId neighborId;
              st1 = inc_comparisons (inc_edgesExamined st0);
              st2 = set_edge_opt edge EXAMINING st1;
              tentativeG = num_add (or_default (map_of (as_gScore st2) currentId) (Num 0)) (Num w);
              st3 = push_step [T ''Check neighbor '', L (Some (label neighborNode)),
                               T ''. Tentative g: '', NumF tentativeG, T '', Current g: '',
                               NumO (map_of (as_gScore st2) neighborId)] 9
                              [(''scores'', formatScores g st2)]
                              [T ''Check '', L (Some (label neighborNode))] st2
          in if num_less tentativeG (or_default (map_of (as_gScore st3) neighborId) Infinity) then
               (let f = num_add tentativeG (as_h g endNode hk neighborId);
                    st4 = st3\<lparr>as_cameFrom := AList.update neighborId currentId (as_cameFrom st3),
                              as_gScore := AList.update neighborId tentativeG (as_gScore st3),
                              as_fScore := AList.update neighborId f (as_fScore st3)\<rparr>;
                    st5 = (if neighborId \<notin> snd ` set (as_open st4)
                           then set_node neighborId VISITING
                                  (st4\<lparr>as_open := pq_enqueue neighborId f (as_open st4)\<rparr>)
                           else st4)
                in Inr (push_step [T ''Update '', L (Some (label neighborNode)), T '': g='',
                                   NumF tentativeG, T '', f='', NumF f] 13
                                  [(''scores'', formatScores g st5), (''openSet'', as_open_view g st5)]
                                  [T ''Update '', L (Some (label neighborNode))] st5))
             else Inr (set_edge_opt edge REJECTED st3))"

fun as_neighbors ::
  "Graph \<Rightarrow> Node \<Rightarrow> heuristic_kind option \<Rightarrow> string \<Rightarrow> (string \<times> real) list \<Rightarrow> as_state \<Rightarrow> error + as_state" where
  "as_neighbors g endNode hk currentId [] st = Inr st"
| "as_neighbors g endNode hk currentId (nw # rest) st =
     (case as_neighbor g endNode hk currentId nw st of
        Inl e \<Rightarrow> Inl e
      | Inr st' \<Rightarrow> as_neighbors g endNode hk currentId rest st')"

definition as_reach_goal :: "Graph \<Rightarrow> string \<Rightarrow> as_state \<Rightarrow> as_state option" where
  "as_reach_goal g endId st0 =
     (case chain_walk (map_of (as_cameFrom st0)) (Some endId) [] of
        None \<Rightarrow> None
      | Some pth \<Rightarrow>
          let st1 = foldl (\<lambda>s i. set_node i IN_SOLUTION s) st0 pth;
              st2 = mark_path_edges g pth st1
          in Some ((push_step [T ''Goal reached! Path: '', Joined '' -> '' (map (label_of g) pth),
                               T ''. Cost: '', NumO (map_of (as_gScore st2) endId)] 6
                              [(''path'', Labels (map (label_of g) pth))]
                              [T ''Path Found''] st2)\<lparr>as_found := True\<rparr>))"

definition as_select :: "Graph \<Rightarrow> Node \<Rightarrow> string \<Rightarrow> as_state \<Rightarrow> as_state" where
  "as_select g currentNode currentId st0 =
     (let st1 = set_node currentId CURRENT (inc_operationsCount st0)
      in push_step [T ''Select '', L (Some (label currentNode)), T '' with lowest f-score: '',
                    NumO (map_of (as_fScore st1) currentId)] 5
                   [(''scores'', formatScores g st1), (''openSet'', as_open_view g st1)]
                   [T ''Process '', L (Some (label currentNode))] st1)"

definition as_iter ::
  "Graph \<Rightarrow> adjlist \<Rightarrow> Node \<Rightarrow> string \<Rightarrow> heuristic_kind option \<Rightarrow> string \<Rightarrow> as_state
     \<Rightarrow> (error + as_state) option" where
  "as_iter g al endNode endId hk currentId st0 =
     (case getNode g currentId of
        None \<Rightarrow> Some (Inl TypeError)
      | Some currentNode \<Rightarrow>
          let st1 = as_select g currentNode currentId st0
          in if currentId = endId then map_option Inr (as_reach_goal g endId st1)
             else
               let st2 = st1\<lparr>as_closed := set_add currentId (as_closed st1)\<rparr>;
                   st3 = inc_nodesVisited 1 (set_node currentId VISITED st2)
               in Some (as_neighbors g endNode hk currentId (neighbors_of al currentId) st3))"

function as_loop ::
  "Graph \<Rightarrow> adjlist \<Rightarrow> Node \<Rightarrow> string \<Rightarrow> heuristic_kind option \<Rightarrow> as_state \<Rightarrow> (error + as_state) option" where
  "as_loop g al endNode endId hk st =
     (if as_found st then Some (Inr st)
      else case as_open st of
             [] \<Rightarrow> Some (Inr st)
           | current # q \<Rightarrow>
               (case as_iter g al endNode endId hk (snd current) (st\<lparr>as_open := q\<rparr>) of
                  None \<Rightarrow> None
                | Some (Inl e) \<Rightarrow> Some (Inl e)
                | Some (Inr st') \<Rightarrow> as_loop g al endNode endId hk st'))"
  by pat_completeness auto

lemma as_fields_prims [simp]:
  "as_gScore (set_node i v st) = as_gScore st"
  "as_gScore (set_edge j ev st) = as_gScore st"
  "as_gScore (set_edge_opt e ev st) = as_gScore st"
  "as_gScore (reject_unless_solution e st) = as_gScore st"
  "as_gScore (inc_nodesVisited k st) = as_gScore st"
  "as_gScore (inc_edgesExamined st) = as_gScore st"
  "as_gScore (inc_operationsCount st) = as_gScore st"
  "as_gScore (inc_comparisons st) = as_gScore st"
  "as_gScore (push_step d l ds opn st) = as_gScore st"
  "as_fScore (set_node i v st) = as_fScore st"
  "as_fScore (set_edge j ev st) = as_fScore st"
  "as_fScore (set_edge_opt e ev st) = as_fScore st"
  "as_fScore (reject_unless_solution e st) = as_fScore st"
  "as_fScore (inc_nodesVisited k st) = as_fScore st"
  "as_fScore (inc_edgesExamined st) = as_fScore st"
  "as_fScore (inc_operationsCount st) = as_fScore st"
  "as_fScore (inc_comparisons st) = as_fScore st"
  "as_fScore (push_step d l ds opn st) = as_fScore st"
  "as_cameFrom (set_node i v st) = as_cameFrom st"
  "as_cameFrom (set_edge j ev st) = as_cameFrom st"
  "as_cameFrom (set_edge_opt e ev st) = as_cameFrom st"
  "as_cameFrom (reject_unless_solution e st) = as_cameFrom st"
  "as_cameFrom (inc_nodesVisited k st) = as_cameFrom st"
  "as_cameFrom (inc_edgesExamined st) = as_cameFrom st"
  "as_cameFrom (inc_operationsCount st) = as_cameFrom st"
  "as_cameFrom (inc_comparisons st) = as_cameFrom st"
  "as_cameFrom (push_step d l ds opn st) = as_cameFrom st"
  "as_open (set_node i v st) = as_open st"
  "as_open (set_edge j ev st) = as_open st"
  "as_open (set_edge_opt e ev st) = as_open st"
  "as_open (reject_unless_solution e st) = as_open st"
  "as_open (inc_nodesVisited k st) = as_open st"
  "as_open (inc_edgesExamined st) = as_open st"
  "as_open (inc_operationsCount st) = as_open st"
  "as_open (inc_comparisons st) = as_open st"
  "as_open (push_step d l ds opn st) = as_open st"
  "as_closed (set_node i v st) = as_closed st"
  "as_closed (set_edge j ev st) = as_closed st"
  "as_closed (set_edge_opt e ev st) = as_closed st"
  "as_closed (reject_unless_solution e st) = as_closed st"
  "as_closed (inc_nodesVisited k st) = as_closed st"
  "as_closed (inc_edgesExamined st) = as_closed st"
  "as_closed (inc_operationsCount st) = as_closed st"
  "as_closed (inc_comparisons st) = as_closed st"
  "as_closed (push_step d l ds opn st) = as_closed st"
  "as_found (set_node i v st) = as_found st"
  "as_found (set_edge j ev st) = as_found st"
  "as_found (set_edge_opt e ev st) = as_found st"
  "as_found (reject_unless_solution e st) = as_found st"
  "as_found (inc_nodesVisited k st) = as_found st"
  "as_found (inc_edgesExamined st) = as_found st"
  "as_found (inc_operationsCount st) = as_found st"
  "as_found (inc_comparisons st) = as_found st"
  "as_found (push_step d l ds opn st) = as_found st"
  by (simp_all add: set_node_def set_edge_def set_edge_opt_def reject_unless_solution_def
        inc_nodesVisited_def inc_edgesExamined_def inc_operationsCount_def inc_comparisons_def
        push_step_def split: option.splits)

lemma as_fields_marks [simp]:
  "as_open (mark_path_edges g pth st) = as_open st"
  "as_closed (mark_path_edges g pth st) = as_closed st"
  "as_open (foldl (\<lambda>s i. set_node i v s) st xs) = as_open st"
  "as_closed (foldl (\<lambda>s i. set_node i v s) st xs) = as_closed st"
proof -
  show "as_open (mark_path_edges g pth st) = as_open st"
    by (induction g pth st rule: mark_path_edges.induct) simp_all
  show "as_closed (mark_path_edges g pth st) = as_closed st"
    by (induction g pth st rule: mark_path_edges.induct) simp_all
  show "as_open (foldl (\<lambda>s i. set_node i v s) st xs) = as_open st"
    by (induction xs arbitrary: st) simp_all
  show "as_closed (foldl (\<lambda>s i. set_node i v s) st xs) = as_closed st"
    by (induction xs arbitrary: st) simp_all
qed

definition as_waiting :: "adjlist \<Rightarrow> as_state \<Rightarrow> string set" where
  "as_waiting al st = adj_ids al - set (as_closed st) - snd ` set (as_open st)"

definition as_measure :: "adjlist \<Rightarrow> as_state \<Rightarrow> nat" where
  "as_measure al st = length (as_open st) + card (as_waiting al st)"

lemma finite_as_waiting: "finite (as_waiting al st)"
  by (simp add: as_waiting_def finite_adj_ids)

lemma as_neighbor_measure:
  assumes "as_neighbor g en hk c nw st = Inr st'" and "fst nw \<in> adj_ids al"
  shows "as_measure al st' \<le> as_measure al st \<and> as_closed st' = as_closed st"
proof (cases "fst nw \<in> set (as_closed st)")
  case True
  then show ?thesis using assms by (simp add: as_neighbor_def Let_def)
next
  case nc: False
  from assms nc obtain nn where nn: "getNode g (fst nw) = Some nn"
    by (cases "getNode g (fst nw)") (simp_all add: as_neighbor_def Let_def)
  have cl: "as_closed st' = as_closed st"
    using assms nc nn by (auto simp: as_neighbor_def Let_def split: if_splits)
  have "as_open st' = as_open st \<or>
        (fst nw \<notin> snd ` set (as_open st) \<and> (\<exists>f. as_open st' = pq_enqueue (fst nw) f (as_open st)))"
    using assms nc nn by (auto simp: as_neighbor_def Let_def split: if_splits)
  then show ?thesis
  proof
    assume "as_open st' = as_open st"
    then show ?thesis using cl by (simp add: as_measure_def as_waiting_def)
  next
    assume a: "fst nw \<notin> snd ` set (as_open st) \<and> (\<exists>f. as_open st' = pq_enqueue (fst nw) f (as_open st))"
    then obtain f where op: "as_open st' = pq_enqueue (fst nw) f (as_open st)" by blast
    have mem: "fst nw \<in> as_waiting al st"
      using a nc assms(2) by (simp add: as_waiting_def)
    have "as_waiting al st' = as_waiting al st - {fst nw}"
      using cl op by (auto simp: as_waiting_def)
    then have "card (as_waiting al st') + 1 = card (as_waiting al st)"
      using card_Suc_Diff1 [OF finite_as_waiting mem] by simp
    then show ?thesis using cl op by (simp add: as_measure_def)
  qed
qed

lemma as_neighbors_measure:
  "as_neighbors g en hk c ns st = Inr st' \<Longrightarrow> fst ` set ns \<subseteq> adj_ids al \<Longrightarrow>
   as_measure al st' \<le> as_measure al st \<and> as_closed st' = as_closed st"
proof (induction ns arbitrary: st)
  case Nil
  then show ?case by simp
next
  case (Cons nw ns)
  then obtain st1 where s1: "as_neighbor g en hk c nw st = Inr st1"
    and r: "as_neighbors g en hk c ns st1 = Inr st'"
    by (cases "as_neighbor g en hk c nw st") simp_all
  have "fst nw \<in> adj_ids al" using Cons.prems(2) by simp
  from as_neighbor_measure [OF s1 this] Cons.IH [OF r] Cons.prems(2)
  show ?case by auto
qed

lemma as_select_fields [simp]:
  "as_open (as_select g cn c st) = as_open st"
  "as_closed (as_select g cn c st) = as_closed st"
  "as_found (as_select g cn c st) = as_found st"
  by (simp_all add: as_select_def Let_def)

lemma as_neighbor_found:
  "as_neighbor g en hk c nw st = Inr st' \<Longrightarrow> as_found st' = as_found st"
  by (auto simp: as_neighbor_def Let_def split: if_splits option.splits)

lemma as_neighbors_found:
  "as_neighbors g en hk c ns st = Inr st' \<Longrightarrow> as_found st' = as_found st"
proof (induction ns arbitrary: st)
  case Nil
  then show ?case by simp
next
  case (Cons nw ns)
  then obtain st1 where s1: "as_neighbor g en hk c nw st = Inr st1"
    and r: "as_neighbors g en hk c ns st1 = Inr st'"
    by (cases "as_neighbor g en hk c nw st") simp_all
  show ?case using Cons.IH [OF r] as_neighbor_found [OF s1] by simp
qed

lemma as_reach_goal_found: "as_reach_goal g e st = Some st' \<Longrightarrow> as_found st'"
  by (auto simp: as_reach_goal_def Let_def split: option.splits)

lemma as_iter_decreases:
  assumes it: "as_iter g al en e hk (snd cur) (st\<lparr>as_open := q\<rparr>) = Some (Inr st')"
    and op: "as_open st = cur # q" and nf: "\<not> as_found st"
  shows "as_found st' \<or> (as_measure al st' < as_measure al st)"
proof -
  from it obtain cn where cn: "getNode g (snd cur) = Some cn"
    by (cases "getNode g (snd cur)") (simp_all add: as_iter_def)
  let ?st1 = "as_select g cn (snd cur) (st\<lparr>as_open := q\<rparr>)"
  show ?thesis
  proof (cases "snd cur = e")
    case True
    then have "as_reach_goal g e ?st1 = Some st'"
      using it cn by (auto simp: as_iter_def Let_def)
    then show ?thesis using as_reach_goal_found by blast
  next
    case False
    let ?st3 = "inc_nodesVisited 1 (set_node (snd cur) VISITED
                  (?st1\<lparr>as_closed := set_add (snd cur) (as_closed ?st1)\<rparr>))"
    have nb: "fst ` set (neighbors_of al (snd cur)) \<subseteq> adj_ids al"
      using neighbors_of_adj_ids by fastforce
    have r: "as_neighbors g en hk (snd cur) (neighbors_of al (snd cur)) ?st3 = Inr st'"
      using it cn False by (simp add: as_iter_def Let_def)
    have le: "as_measure al st' \<le> as_measure al ?st3"
      using as_neighbors_measure [OF r nb] by simp
    have "as_waiting al ?st3 = as_waiting al st"
      using op by (auto simp: as_waiting_def set_add_def)
    then have "as_measure al ?st3 < as_measure al st"
      using op by (simp add: as_measure_def)
    then show ?thesis using le by simp
  qed
qed

lemma as_iter_found:
  assumes it: "as_iter g al en e hk c st = Some (Inr st')" and "snd cur \<noteq> e" "c = snd cur"
  shows "as_found st' = as_found st"
proof -
  from it obtain cn where cn: "getNode g c = Some cn"
    by (cases "getNode g c") (simp_all add: as_iter_def)
  then have "as_neighbors g en hk c (neighbors_of al c)
        (inc_nodesVisited 1 (set_node c VISITED
           ((as_select g cn c st)\<lparr>as_closed := set_add c (as_closed (as_select g cn c st))\<rparr>))) = Inr st'"
    using it assms(2,3) by (simp add: as_iter_def Let_def)
  from as_neighbors_found [OF this] show ?thesis by simp
qed

termination as_loop
proof (relation "measures [\<lambda>(g, al, en, e, hk, st). if as_found st then 0 else 1,
                             \<lambda>(g, al, en, e, hk, st). as_measure al st]")
  show "wf (measures [\<lambda>(g :: Graph, al, en :: Node, e :: string, hk :: heuristic_kind option, st).
                        if as_found st then 0 else 1,
                      \<lambda>(g, al, en, e, hk, st). as_measure al st])"
    by simp
next
  fix g :: Graph and al :: adjlist and endNode :: Node and endId :: string
    and hk :: "heuristic_kind option" and st st' :: as_state
    and current :: "number \<times> string" and q r
  assume nf: "\<not> as_found st" and op: "as_open st = current # q"
    and it: "as_iter g al endNode endId hk (snd current) (st\<lparr>as_open := q\<rparr>) = Some r"
    and r: "r = Inr st'"
  have "as_found st' \<or> as_measure al st' < as_measure al st"
    using as_iter_decreases [OF it [unfolded r] op nf] .
  then show "((g, al, endNode, endId, hk, st'), (g, al, endNode, endId, hk, st))
        \<in> measures [\<lambda>(g, al, en, e, hk, st). if as_found st then 0 else 1,
                     \<lambda>(g, al, en, e, hk, st). as_measure al st]"
    using nf by auto
qed

declare as_loop.simps [simp del]

definition as_init :: "Graph \<Rightarrow> Node \<Rightarrow> heuristic_kind option \<Rightarrow> string \<Rightarrow> as_state" where
  "as_init g endNode hk startId =
     (let st0 = \<lparr>nstates = init_nstates g, estates = init_estates g, mets = zero_metrics, steps = [],
                 as_gScore = AList.update startId (Num 0)
                               (foldl (\<lambda>m n. AList.update (nid n) Infinity m) [] (nodes g)),
                 as_fScore = AList.update startId (as_h g endNode hk startId)
                               (foldl (\<lambda>m n. AList.update (nid n) Infinity m) [] (nodes g)),
                 as_cameFrom = [],
                 as_open = pq_enqueue startId (as_h g endNode hk startId) [],
                 as_closed = [], as_found = False\<rparr>;
          st1 = set_node startId VISITING st0
      in push_step [T ''Initialize A*. Start: '', L (label_of g startId), T '', Goal: '',
                    L (Some (label endNode)), T ''. Using '',
                    T (case hk of Some Manhattan \<Rightarrow> ''manhattan'' | _ \<Rightarrow> ''euclidean''),
                    T '' heuristic.''] 1
                   [(''scores'', formatScores g st1), (''openSet'', as_open_view g st1)]
                   [T ''Initialize''] st1)"

definition as_finish :: "Graph \<Rightarrow> string \<Rightarrow> Node \<Rightarrow> as_state \<Rightarrow> AlgorithmStep list" where
  "as_finish g startId endNode st =
     (if as_found st then steps st
      else steps (push_step [T ''No path found from '', L (label_of g startId), T '' to '',
                             L (Some (label endNode)), T ''.''] 4 [] [T ''No Path''] st))"

text \<open>
  The result is \<open>None\<close> when the walk along \<open>cameFrom\<close> does not end, and \<open>Inl\<close> when
  the executor throws.
\<close>

definition executeAStar :: "Graph \<Rightarrow> AlgorithmParams \<Rightarrow> (error + AlgorithmStep list) option" where
  "executeAStar g params =
     (if falsy_id (startNodeId params) \<or> falsy_id (endNodeId params) then Some (Inr [])
      else
        let startId = the (startNodeId params); endId = the (endNodeId params)
        in case (getNode g startId, getNode g endId) of
             (Some startNode, Some endNode) \<Rightarrow>
               map_option (map_sum id (as_finish g startId endNode))
                 (as_loop g (toAdjacencyList g) endNode endId (heuristic params)
                    (as_init g endNode (heuristic params) startId))
           | _ \<Rightarrow> Some (Inr []))"

section \<open>Prim (algorithms/mst/prim.ts)\<close>

text \<open>
  Prim's priority queue differs from the one of Dijkstra and A*: \<open>enqueue\<close> of a value that
  is already queued lowers the priority of that entry in place when the new priority is
  strictly smaller, and otherwise does nothing.
\<close>

fun pq_set_first :: "string \<Rightarrow> number \<Rightarrow> (number \<times> string) list \<Rightarrow> (number \<times> string) list" where
  "pq_set_first v p [] = []"
| "pq_set_first v p (i # items) =
     (if snd i = v then (p, snd i) # items else i # pq_set_first v p items)"

definition prim_enqueue :: "string \<Rightarrow> number \<Rightarrow> (number \<times> string) list \<Rightarrow> (number \<times> string) list" where
  "prim_enqueue v p items =
     (case find (\<lambda>i. snd i = v) items of
        Some existing \<Rightarrow>
          if num_less p (fst existing) then pq_sort (pq_set_first v p items) else items
      | None \<Rightarrow> pq_sort (items @ [(p, v)]))"

record prim_state = trace +
  pm_key :: "(string \<times> number) list"
  pm_parent :: "(string \<times> string option) list"
  pm_inMST :: "string list"
  pm_pq :: "(number \<times> string) list"
  pm_totalWeight :: real

definition formatKeys :: "Graph \<Rightarrow> (string \<times> number) list \<Rightarrow> dsval" where
  "formatKeys g ky =
     NumTable (foldl (\<lambda>t n. AList.update (label n) (map_of ky (nid n)) t) [] (nodes g))"

definition prim_neighbor :: "Graph \<Rightarrow> Node \<Rightarrow> string \<Rightarrow> string \<times> real \<Rightarrow> prim_state \<Rightarrow> error + prim_state" where
  "prim_neighbor g currentNode currentId nw st0 =
     (let neighborId = fst nw; w = snd nw in
      if neighborId \<in> set (pm_inMST st0) then Inr st0
      else case getNode g neighborId of
        None \<Rightarrow> Inl TypeError
      | Some neighborNode \<Rightarrow>
          let edge = getEdgeBetween g currentId neighborId;
              st1 = inc_comparisons (inc_edgesExamined st0);
              st2 = set_edge_opt edge EXAMINING st1;
              st3 = push_step [T ''Check edge '', L (Some (label currentNode)), T ''-'',
                               L (Some (label neighborNode)), T '' (weight: '', R w,
                               T ''). Current key['', L (Some (label neighborNode)), T ''] = '',
                               NumO (map_of (pm_key st2) neighborId)] 7
                              [(''keys'', formatKeys g (pm_key st2))]
                              [T ''Check '', L (Some (label neighborNode))] st2
          in if num_less (Num w) (or_default (map_of (pm_key st3) neighborId) Infinity) then
               (let st4 = st3\<lparr>pm_key := AList.update neighborId (Num w) (pm_key st3),
                              pm_parent := AList.update neighborId (Some currentId) (pm_parent st3),
                              pm_pq := prim_enqueue neighborId (Num w) (pm_pq st3)\<rparr>;
                    st5 = set_node neighborId VISITING st4
                in Inr (push_step [T ''Update key['', L (Some (label neighborNode)), T ''] = '',
                                   R w, T '', parent = '', L (Some (label currentNode))] 9
                                  [(''keys'', formatKeys g (pm_key st5))]
                                  [T ''Update '', L (Some (label neighborNode))] st5))
             else Inr (reject_unless_solution edge st3))"

fun prim_neighbors ::
  "Graph \<Rightarrow> Node \<Rightarrow> string \<Rightarrow> (string \<times> real) list \<Rightarrow> prim_state \<Rightarrow> error + prim_state" where
  "prim_neighbors g currentNode currentId [] st = Inr st"
| "prim_neighbors g currentNode currentId (nw # rest) st =
     (case prim_neighbor g currentNode currentId nw st of
        Inl e \<Rightarrow> Inl e
      | Inr st' \<Rightarrow> prim_neighbors g currentNode currentId rest st')"

text \<open>
  \<open>prim_add\<close> is the part of an iteration from the test \<open>inMST.has(currentId)\<close>, which
  has failed, to the step that reports the node added to the tree.
\<close>

definition prim_add :: "Graph \<Rightarrow> Node \<Rightarrow> string \<Rightarrow> prim_state \<Rightarrow> prim_state" where
  "prim_add g currentNode currentId st1 =
     (let st2 = st1\<lparr>pm_inMST := set_add currentId (pm_inMST st1)\<rparr>;
          st3 = inc_nodesVisited 1 (set_node currentId IN_SOLUTION st2);
          parentId = parent_of (pm_parent st3) currentId;
          st4 = (case parentId of
                   None \<Rightarrow> st3
                 | Some p \<Rightarrow>
                     if p = [] then st3
                     else case getEdgeBetween g p currentId of
                            None \<Rightarrow> st3
                          | Some edge \<Rightarrow>
                              (set_edge (eid edge) E_IN_SOLUTION st3)
                                \<lparr>pm_totalWeight := pm_totalWeight st3 + weight edge\<rparr>)
      in push_step ([T ''Add '', L (Some (label currentNode)), T '' to MST''] @
                    (case parentId of
                       None \<Rightarrow> []
                     | Some p \<Rightarrow> if p = [] then [] else [T '' via edge from '', L (label_of g p)]) @
                    [T ''.'']) 5
                   [(''keys'', formatKeys g (pm_key st4)), (''totalWeight'', Total (pm_totalWeight st4)),
                    (''mstSize'', Count (length (pm_inMST st4)))]
                   [T ''Add '', L (Some (label currentNode))] st4)"

definition prim_iter :: "Graph \<Rightarrow> adjlist \<Rightarrow> string \<Rightarrow> prim_state \<Rightarrow> error + prim_state" where
  "prim_iter g al currentId st0 =
     (let st1 = inc_operationsCount st0
      in if currentId \<in> set (pm_inMST st1) then Inr st1
         else case getNode g currentId of
                None \<Rightarrow> Inl TypeError
              | Some currentNode \<Rightarrow>
                  prim_neighbors g currentNode currentId (neighbors_of al currentId)
                    (prim_add g currentNode currentId st1))"

function prim_loop :: "Graph \<Rightarrow> adjlist \<Rightarrow> prim_state \<Rightarrow> error + prim_state" where
  "prim_loop g al st =
     (case pm_pq st of
        [] \<Rightarrow> Inr st
      | current # q \<Rightarrow>
          (case prim_iter g al (snd current) (st\<lparr>pm_pq := q\<rparr>) of
             Inl e \<Rightarrow> Inl e
           | Inr st' \<Rightarrow> prim_loop g al st'))"
  by pat_completeness auto

lemma pm_fields_prims [simp]:
  "pm_key (set_node i v st) = pm_key st"
  "pm_key (set_edge j ev st) = pm_key st"
  "pm_key (set_edge_opt e ev st) = pm_key st"
  "pm_key (reject_unless_solution e st) = pm_key st"
  "pm_key (inc_nodesVisited k st) = pm_key st"
  "pm_key (inc_edgesExamined st) = pm_key st"
  "pm_key (inc_operationsCount st) = pm_key st"
  "pm_key (inc_comparisons st) = pm_key st"
  "pm_key (push_step d l ds opn st) = pm_key st"
  "pm_parent (set_node i v st) = pm_parent st"
  "pm_parent (set_edge j ev st) = pm_parent st"
  "pm_parent (set_edge_opt e ev st) = pm_parent st"
  "pm_parent (reject_unless_solution e st) = pm_parent st"
  "pm_parent (inc_nodesVisited k st) = pm_parent st"
  "pm_parent (inc_edgesExamined st) = pm_parent st"
  "pm_parent (inc_operationsCount st) = pm_parent st"
  "pm_parent (inc_comparisons st) = pm_parent st"
  "pm_parent (push_step d l ds opn st) = pm_parent st"
  "pm_inMST (set_node i v st) = pm_inMST st"
  "pm_inMST (set_edge j ev st) = pm_inMST st"
  "pm_inMST (set_edge_opt e ev st) = pm_inMST st"
  "pm_inMST (reject_unless_solution e st) = pm_inMST st"
  "pm_inMST (inc_nodesVisited k st) = pm_inMST st"
  "pm_inMST (inc_edgesExamined st) = pm_inMST st"
  "pm_inMST (inc_operationsCount st) = pm_inMST st"
  "pm_inMST (inc_comparisons st) = pm_inMST st"
  "pm_inMST (push_step d l ds opn st) = pm_inMST st"
  "pm_pq (set_node i v st) = pm_pq st"
  "pm_pq (set_edge j ev st) = pm_pq st"
  "pm_pq (set_edge_opt e ev st) = pm_pq st"
  "pm_pq (reject_unless_solution e st) = pm_pq st"
  "pm_pq (inc_nodesVisited k st) = pm_pq st"
  "pm_pq (inc_edgesExamined st) = pm_pq st"
  "pm_pq (inc_operationsCount st) = pm_pq st"
  "pm_pq (inc_comparisons st) = pm_pq st"
  "pm_pq (push_step d l ds opn st) = pm_pq st"
  "pm_totalWeight (set_node i v st) = pm_totalWeight st"
  "pm_totalWeight (set_edge j ev st) = pm_totalWeight st"
  "pm_totalWeight (set_edge_opt e ev st) = pm_totalWeight st"
  "pm_totalWeight (reject_unless_solution e st) = pm_totalWeight st"
  "pm_totalWeight (inc_nodesVisited k st) = pm_totalWeight st"
  "pm_totalWeight (inc_edgesExamined st) = pm_totalWeight st"
  "pm_totalWeight (inc_operationsCount st) = pm_totalWeight st"
  "pm_totalWeight (inc_comparisons st) = pm_totalWeight st"
  "pm_totalWeight (push_step d l ds opn st) = pm_totalWeight st"
  by (simp_all add: set_node_def set_edge_def set_edge_opt_def reject_unless_solution_def
        inc_nodesVisited_def inc_edgesExamined_def inc_operationsCount_def inc_comparisons_def
        push_step_def split: option.splits)

lemma set_pq_set_first:
  "v \<in> snd ` set items \<Longrightarrow> snd ` set (pq_set_first v p items) = snd ` set items"
  by (induction items) auto

lemma length_pq_set_first [simp]: "length (pq_set_first v p items) = length items"
  by (induction items) auto

lemma map_snd_pq_set_first [simp]: "map snd (pq_set_first v p items) = map snd items"
  by (induction items) auto

lemma find_snd_None: "find (\<lambda>i. snd i = v) items = None \<longleftrightarrow> v \<notin> snd ` set items"
  by (force simp: find_None_iff)

lemma prim_enqueue_values:
  "snd ` set (prim_enqueue v p items) = insert v (snd ` set items)"
proof (cases "find (\<lambda>i. snd i = v) items")
  case None
  then show ?thesis by (simp add: prim_enqueue_def)
next
  case (Some a)
  then have "v \<in> snd ` set items" using find_snd_None [of v items] by simp
  then show ?thesis using Some
    by (auto simp: prim_enqueue_def set_pq_set_first)
qed

lemma prim_enqueue_length:
  "length (prim_enqueue v p items) = (if v \<in> snd ` set items then length items else Suc (length items))"
proof (cases "find (\<lambda>i. snd i = v) items")
  case None
  then show ?thesis using find_snd_None [of v items] by (simp add: prim_enqueue_def)
next
  case (Some a)
  then have "v \<in> snd ` set items" using find_snd_None [of v items] by simp
  then show ?thesis using Some by (simp add: prim_enqueue_def)
qed

lemma prim_neighbor_fields:
  assumes "prim_neighbor g cn c nw st = Inr st'"
  shows "pm_inMST st' = pm_inMST st"
    and "pm_pq st' = pm_pq st \<or>
         (fst nw \<notin> set (pm_inMST st) \<and> (\<exists>p. pm_pq st' = prim_enqueue (fst nw) p (pm_pq st)))"
proof -
  show "pm_inMST st' = pm_inMST st"
    using assms by (auto simp: prim_neighbor_def Let_def split: if_splits option.splits)
  show "pm_pq st' = pm_pq st \<or>
         (fst nw \<notin> set (pm_inMST st) \<and> (\<exists>p. pm_pq st' = prim_enqueue (fst nw) p (pm_pq st)))"
    using assms by (auto simp: prim_neighbor_def Let_def split: if_splits option.splits)
qed

lemma prim_neighbors_fields:
  "prim_neighbors g cn c ns st = Inr st' \<Longrightarrow>
   pm_inMST st' = pm_inMST st \<and> snd ` set (pm_pq st') \<subseteq> fst ` set ns \<union> snd ` set (pm_pq st)"
proof (induction ns arbitrary: st)
  case Nil
  then show ?case by simp
next
  case (Cons nw ns)
  then obtain st1 where s1: "prim_neighbor g cn c nw st = Inr st1"
    and r: "prim_neighbors g cn c ns st1 = Inr st'"
    by (cases "prim_neighbor g cn c nw st") simp_all
  have "snd ` set (pm_pq st1) \<subseteq> insert (fst nw) (snd ` set (pm_pq st))"
  proof -
    from prim_neighbor_fields(2) [OF s1] show ?thesis
    proof
      assume "pm_pq st1 = pm_pq st"
      then show ?thesis by auto
    next
      assume "fst nw \<notin> set (pm_inMST st) \<and> (\<exists>p. pm_pq st1 = prim_enqueue (fst nw) p (pm_pq st))"
      then obtain p where "pm_pq st1 = prim_enqueue (fst nw) p (pm_pq st)" by blast
      then show ?thesis by (simp add: prim_enqueue_values)
    qed
  qed
  moreover have "snd ` set (pm_pq st') \<subseteq> fst ` set ns \<union> snd ` set (pm_pq st1)"
    and "pm_inMST st' = pm_inMST st1"
    using Cons.IH [OF r] by simp_all
  ultimately show ?case using prim_neighbor_fields(1) [OF s1] by (simp add: subset_iff) blast
qed

lemma prim_add_fields [simp]:
  "pm_inMST (prim_add g cn c st) = set_add c (pm_inMST st)"
  "pm_pq (prim_add g cn c st) = pm_pq st"
  by (simp_all add: prim_add_def Let_def split: option.splits)

lemma prim_iter_skip:
  "c \<in> set (pm_inMST st) \<Longrightarrow> prim_iter g al c st = Inr (inc_operationsCount st)"
  by (simp add: prim_iter_def Let_def)

lemma prim_iter_visit:
  assumes "prim_iter g al c st = Inr st'" and "c \<notin> set (pm_inMST st)"
  shows "set (pm_inMST st') = insert c (set (pm_inMST st))"
    and "snd ` set (pm_pq st') \<subseteq> adj_ids al \<union> snd ` set (pm_pq st)"
proof -
  from assms obtain cn where cn: "getNode g c = Some cn"
    by (cases "getNode g c") (simp_all add: prim_iter_def Let_def)
  then have r: "prim_neighbors g cn c (neighbors_of al c) (prim_add g cn c (inc_operationsCount st)) = Inr st'"
    using assms by (simp add: prim_iter_def Let_def)
  have nb: "fst ` set (neighbors_of al c) \<subseteq> adj_ids al"
    using neighbors_of_adj_ids by fastforce
  show "set (pm_inMST st') = insert c (set (pm_inMST st))"
    using prim_neighbors_fields [OF r] assms(2) by (simp add: set_add_def)
  have "snd ` set (pm_pq st') \<subseteq> fst ` set (neighbors_of al c) \<union> snd ` set (pm_pq st)"
    using prim_neighbors_fields [OF r] by simp
  then show "snd ` set (pm_pq st') \<subseteq> adj_ids al \<union> snd ` set (pm_pq st)"
    using nb by blast
qed

definition prim_todo :: "adjlist \<Rightarrow> prim_state \<Rightarrow> string set" where
  "prim_todo al st = (adj_ids al \<union> snd ` set (pm_pq st)) - set (pm_inMST st)"

lemma finite_prim_todo: "finite (prim_todo al st)"
  by (simp add: prim_todo_def finite_adj_ids)

termination prim_loop
proof (relation "measures [\<lambda>(g, al, st). card (prim_todo al st),
                             \<lambda>(g, al, st). length (pm_pq st)]")
  show "wf (measures [\<lambda>(g :: Graph, al, st). card (prim_todo al st),
                      \<lambda>(g, al, st). length (pm_pq st)])"
    by simp
next
  fix g :: Graph and al :: adjlist and st st' :: prim_state
    and current :: "number \<times> string" and q
  assume pq: "pm_pq st = current # q"
    and it: "prim_iter g al (snd current) (st\<lparr>pm_pq := q\<rparr>) = Inr st'"
  let ?st0 = "st\<lparr>pm_pq := q\<rparr>"
  show "((g, al, st'), (g, al, st)) \<in> measures [\<lambda>(g, al, st). card (prim_todo al st),
                                                \<lambda>(g, al, st). length (pm_pq st)]"
  proof (cases "snd current \<in> set (pm_inMST st)")
    case True
    then have st': "st' = inc_operationsCount ?st0"
      using it by (simp add: prim_iter_skip)
    have "prim_todo al st' \<subseteq> prim_todo al st"
      using pq by (auto simp: st' prim_todo_def)
    then have "card (prim_todo al st') \<le> card (prim_todo al st)"
      using finite_prim_todo by (simp add: card_mono)
    moreover have "length (pm_pq st') < length (pm_pq st)"
      using pq by (simp add: st')
    ultimately show ?thesis by auto
  next
    case False
    then have nv: "snd current \<notin> set (pm_inMST ?st0)" by simp
    have v: "set (pm_inMST st') = insert (snd current) (set (pm_inMST st))"
      using prim_iter_visit(1) [OF it nv] by simp
    have p: "snd ` set (pm_pq st') \<subseteq> adj_ids al \<union> snd ` set q"
      using prim_iter_visit(2) [OF it nv] by simp
    have "snd current \<in> prim_todo al st" using pq False by (simp add: prim_todo_def)
    moreover have "snd current \<notin> prim_todo al st'" using v by (simp add: prim_todo_def)
    moreover have "prim_todo al st' \<subseteq> prim_todo al st"
      using v p pq by (auto simp: prim_todo_def)
    ultimately have "prim_todo al st' \<subset> prim_todo al st" by blast
    then have "card (prim_todo al st') < card (prim_todo al st)"
      using finite_prim_todo by (simp add: psubset_card_mono)
    then show ?thesis by simp
  qed
qed

declare prim_loop.simps [simp del]

definition prim_init :: "Graph \<Rightarrow> string \<Rightarrow> prim_state" where
  "prim_init g startId =
     (let st0 = \<lparr>nstates = init_nstates g, estates = init_estates g, mets = zero_metrics, steps = [],
                 pm_key = foldl (\<lambda>m n. AList.update (nid n)
                                       (if nid n = startId then Num 0 else Infinity) m) [] (nodes g),
                 pm_parent = foldl (\<lambda>m n. AList.update (nid n) None m) [] (nodes g),
                 pm_inMST = [],
                 pm_pq = foldl (\<lambda>items n. prim_enqueue (nid n)
                                         (if nid n = startId then Num 0 else Infinity) items)
                               [] (nodes g),
                 pm_totalWeight = 0\<rparr>
      in push_step [T ''Initialize Prim's from '', L (label_of g startId), T ''. Set key['',
                    L (label_of g startId), T ''] = 0.''] 1
                   [(''keys'', formatKeys g (pm_key st0))] [T ''Initialize''] st0)"

definition prim_finish :: "prim_state \<Rightarrow> AlgorithmStep list" where
  "prim_finish st =
     steps (push_step [T ''Prim's complete. MST has '', K (length (pm_inMST st)),
                       T '' nodes with total weight: '', R (pm_totalWeight st)] 9
                      [(''totalWeight'', Total (pm_totalWeight st)),
                       (''nodeCount'', Count (length (pm_inMST st)))]
                      [T ''Complete''] st)"

definition executePrim :: "Graph \<Rightarrow> AlgorithmParams \<Rightarrow> error + AlgorithmStep list" where
  "executePrim g params =
     (if falsy_id (startNodeId params) then Inr []
      else case prim_loop g (toAdjacencyList g) (prim_init g (the (startNodeId params))) of
             Inl e \<Rightarrow> Inl e
           | Inr st \<Rightarrow> Inr (prim_finish st))"

section \<open>Kruskal (algorithms/mst/kruskal.ts)\<close>

text \<open>
  The union-find structure. Its maps are declared over strings, but an id without an entry
  reads as \<open>undefined\<close>, and \<open>find\<close> then stores and returns \<open>undefined\<close>; so keys and
  values are optional strings here. \<open>find\<close> compresses the path it walks and does not
  return on a cyclic parent map, which is the value \<open>None\<close>.
\<close>

type_synonym uf_parent = "(string option \<times> string option) list"

definition uf_get :: "uf_parent \<Rightarrow> string option \<Rightarrow> string option" where
  "uf_get parent x = (case map_of parent x of None \<Rightarrow> None | Some v \<Rightarrow> v)"

partial_function (option) uf_find :: "uf_parent \<Rightarrow> string option \<Rightarrow> (string option \<times> uf_parent) option" where
  "uf_find parent x =
     (if uf_get parent x \<noteq> x
      then Option.bind (uf_find parent (uf_get parent x))
             (\<lambda>(r, parent'). Some (uf_get (AList.update x r parent') x, AList.update x r parent'))
      else Some (uf_get parent x, parent))"

declare uf_find.simps [code]

record union_find =
  uf_parent :: uf_parent
  uf_rank :: "(string option \<times> nat) list"

definition uf_new :: "string list \<Rightarrow> union_find" where
  "uf_new ids =
     foldl (\<lambda>u i. \<lparr>uf_parent = AList.update (Some i) (Some i) (uf_parent u),
                    uf_rank = AList.update (Some i) 0 (uf_rank u)\<rparr>)
           \<lparr>uf_parent = [], uf_rank = []\<rparr> ids"

definition rank_or_zero :: "(string option \<times> nat) list \<Rightarrow> string option \<Rightarrow> nat" where
  "rank_or_zero rk x = (case map_of rk x of None \<Rightarrow> 0 | Some r \<Rightarrow> r)"

definition uf_union :: "union_find \<Rightarrow> string \<Rightarrow> string \<Rightarrow> (bool \<times> union_find) option" where
  "uf_union u x y =
     (case uf_find (uf_parent u) (Some x) of
        None \<Rightarrow> None
      | Some (rootX, p1) \<Rightarrow>
          (case uf_find p1 (Some y) of
             None \<Rightarrow> None
           | Some (rootY, p2) \<Rightarrow>
               if rootX = rootY then Some (False, u\<lparr>uf_parent := p2\<rparr>)
               else
                 let rankX = rank_or_zero (uf_rank u) rootX;
                     rankY = rank_or_zero (uf_rank u) rootY
                 in if rankX < rankY
                    then Some (True, u\<lparr>uf_parent := AList.update rootX rootY p2\<rparr>)
                    else if rankY < rankX
                    then Some (True, u\<lparr>uf_parent := AList.update rootY rootX p2\<rparr>)
                    else Some (True, \<lparr>uf_parent = AList.update rootY rootX p2,
                                      uf_rank = AList.update rootX (rankX + 1) (uf_rank u)\<rparr>)))"

text \<open>\<open>[...graph.edges].sort((a, b) => a.weight - b.weight)\<close>, a stable sort.\<close>

fun edge_insort :: "Edge \<Rightarrow> Edge list \<Rightarrow> Edge list" where
  "edge_insort e [] = [e]"
| "edge_insort e (y # ys) = (if weight e \<le> weight y then e # y # ys else y # edge_insort e ys)"

definition sort_edges :: "Edge list \<Rightarrow> Edge list" where
  "sort_edges es = foldr edge_insort es []"

record kr_state = trace +
  kr_uf :: union_find
  kr_mstEdges :: "string list"
  kr_totalWeight :: real

definition edge_name :: "Graph \<Rightarrow> Edge \<Rightarrow> frag list" where
  "edge_name g e = [L (label_of g (source e)), T ''-'', L (label_of g (target e))]"

text \<open>
  The view of the tree edges looks every id up in \<open>graph.edges\<close> again; an id that is
  not found there would throw, which cannot happen for ids taken from these edges, and is
  shown as an empty name.
\<close>

definition kr_views :: "Graph \<Rightarrow> kr_state \<Rightarrow> (string \<times> dsval) list" where
  "kr_views g st =
     [(''mstEdges'', Words (map (\<lambda>i. case find (\<lambda>e. eid e = i) (edges g) of
                                        None \<Rightarrow> [] | Some e \<Rightarrow> edge_name g e)
                                (kr_mstEdges st))),
      (''totalWeight'', Total (kr_totalWeight st))]"

definition kr_edge :: "Graph \<Rightarrow> Edge \<Rightarrow> kr_state \<Rightarrow> kr_state option" where
  "kr_edge g edge st0 =
     (let st1 = inc_operationsCount (inc_comparisons (inc_edgesExamined st0));
          st2 = set_edge (eid edge) EXAMINING st1;
          st3 = push_step ([T ''Consider edge ''] @ edge_name g edge @
                           [T '' (weight: '', R (weight edge), T '')'']) 4
                          (kr_views g st2) [T ''Check edge''] st2
      in case uf_union (kr_uf st3) (source edge) (target edge) of
           None \<Rightarrow> None
         | Some (joined, u) \<Rightarrow>
             if joined then
               (let st4 = st3\<lparr>kr_uf := u, kr_mstEdges := kr_mstEdges st3 @ [eid edge],
                              kr_totalWeight := kr_totalWeight st3 + weight edge\<rparr>;
                    st5 = set_node (target edge) IN_SOLUTION
                            (set_node (source edge) IN_SOLUTION
                               (set_edge (eid edge) E_IN_SOLUTION st4));
                    st6 = inc_nodesVisited 2 st5
                in Some (push_step ([T ''Add edge ''] @ edge_name g edge @
                                    [T '' to MST. No cycle created.'']) 6
                                   (kr_views g st6) [T ''Add to MST''] st6))
             else
               (let st4 = set_edge (eid edge) REJECTED (st3\<lparr>kr_uf := u\<rparr>)
                in Some (push_step ([T ''Reject edge ''] @ edge_name g edge @
                                    [T ''. Would create cycle.'']) 5
                                   (kr_views g st4) [T ''Reject edge''] st4)))"

fun kr_edges :: "Graph \<Rightarrow> Edge list \<Rightarrow> kr_state \<Rightarrow> kr_state option" where
  "kr_edges g [] st = Some st"
| "kr_edges g (edge # rest) st =
     (case kr_edge g edge st of
        None \<Rightarrow> None
      | Some st' \<Rightarrow>
          if int (length (kr_mstEdges st')) = int (length (nodes g)) - 1 then Some st'
          else kr_edges g rest st')"

definition kr_init :: "Graph \<Rightarrow> kr_state" where
  "kr_init g =
     (let st0 = \<lparr>nstates = init_nstates g, estates = init_estates g, mets = zero_metrics, steps = [],
                 kr_uf = uf_new (map nid (nodes g)), kr_mstEdges = [], kr_totalWeight = 0\<rparr>
      in push_step [T ''Sort '', K (length (edges g)), T '' edges by weight.''] 1
                   [(''sortedEdges'',
                     Words (map (\<lambda>e. edge_name g e @ [T ''('', R (weight e), T '')''])
                                (sort_edges (edges g))))]
                   [T ''Sort edges''] st0)"

definition kr_finish :: "kr_state \<Rightarrow> AlgorithmStep list" where
  "kr_finish st =
     steps (push_step [T ''Kruskal's complete. MST has '', K (length (kr_mstEdges st)),
                       T '' edges with total weight: '', R (kr_totalWeight st)] 8
                      [(''totalWeight'', Total (kr_totalWeight st)),
                       (''edgeCount'', Count (length (kr_mstEdges st)))]
                      [T ''Complete''] st)"

text \<open>The result is \<open>None\<close> when a \<open>find\<close> of the union-find structure does not return.\<close>

definition executeKruskal :: "Graph \<Rightarrow> AlgorithmParams \<Rightarrow> AlgorithmStep list option" where
  "executeKruskal g params = map_option kr_finish (kr_edges g (sort_edges (edges g)) (kr_init g))"

section \<open>Connected components (algorithms/other/connectedComponents.ts)\<close>

definition COMPONENT_COLORS :: "NodeState list" where
  "COMPONENT_COLORS = [IN_SOLUTION, VISITING, VISITED, IN_PATH, CURRENT]"

record cc_state = trace +
  cc_visited :: "string list"
  cc_component :: "(string \<times> nat) list"
  cc_componentId :: nat

text \<open>
  \<open>formatComponents\<close> groups the nodes by component; a node is shown by its label, or by
  its id when it has no label or an empty one.
\<close>

definition group_push :: "nat \<Rightarrow> string \<Rightarrow> (nat \<times> string list) list \<Rightarrow> (nat \<times> string list) list" where
  "group_push k v t = AList.update k ((case map_of t k of None \<Rightarrow> [] | Some xs \<Rightarrow> xs) @ [v]) t"

definition formatComponents :: "Graph \<Rightarrow> (string \<times> nat) list \<Rightarrow> dsval" where
  "formatComponents g cmap =
     Groups (foldl (\<lambda>t ic. group_push (snd ic + 1)
                              (case label_of g (fst ic) of
                                 None \<Rightarrow> fst ic
                               | Some l \<Rightarrow> if l = [] then fst ic else l) t)
                   [] cmap)"

definition cc_enter :: "Graph \<Rightarrow> Node \<Rightarrow> string \<Rightarrow> nat \<Rightarrow> cc_state \<Rightarrow> cc_state" where
  "cc_enter g node nodeId compId st0 =
     (let st1 = st0\<lparr>cc_visited := set_add nodeId (cc_visited st0),
                    cc_component := AList.update nodeId compId (cc_component st0)\<rparr>;
          st2 = set_node nodeId (COMPONENT_COLORS ! (compId mod length COMPONENT_COLORS)) st1;
          st3 = inc_operationsCount (inc_nodesVisited 1 st2)
      in push_step [T ''Visit '', L (Some (label node)), T ''. Assign to component '',
                    K (compId + 1), T ''.''] 8
                   [(''componentCount'', Count (compId + 1)),
                    (''components'', formatComponents g (cc_component st3))]
                   [T ''Visit '', L (Some (label node))] st3)"

function cc_dfs :: "Graph \<Rightarrow> adjlist \<Rightarrow> string \<Rightarrow> nat \<Rightarrow> cc_state \<Rightarrow> error + cc_state"
  and cc_neighbors ::
    "Graph \<Rightarrow> adjlist \<Rightarrow> string \<Rightarrow> nat \<Rightarrow> (string \<times> real) list \<Rightarrow> cc_state \<Rightarrow> error + cc_state"
  where
  "cc_dfs g al nodeId compId st =
     (case getNode g nodeId of
        None \<Rightarrow> Inl TypeError
      | Some node \<Rightarrow>
          cc_neighbors g al nodeId compId (neighbors_of al nodeId) (cc_enter g node nodeId compId st))"
| "cc_neighbors g al nodeId compId [] st = Inr st"
| "cc_neighbors g al nodeId compId (nw # rest) st =
     (if fst nw \<notin> set (cc_visited st)
      then (case cc_dfs g al (fst nw) compId
                   (set_edge_opt (getEdgeBetween g nodeId (fst nw)) E_IN_SOLUTION
                      (inc_edgesExamined st)) of
              Inl e \<Rightarrow> Inl e
            | Inr st' \<Rightarrow> cc_neighbors g al nodeId compId rest st')
      else cc_neighbors g al nodeId compId rest (inc_edgesExamined st))"
  by pat_completeness auto

lemma cc_fields_prims [simp]:
  "cc_visited (set_node i v st) = cc_visited st"
  "cc_visited (set_edge j ev st) = cc_visited st"
  "cc_visited (set_edge_opt e ev st) = cc_visited st"
  "cc_visited (reject_unless_solution e st) = cc_visited st"
  "cc_visited (inc_nodesVisited k st) = cc_visited st"
  "cc_visited (inc_edgesExamined st) = cc_visited st"
  "cc_visited (inc_operationsCount st) = cc_visited st"
  "cc_visited (inc_comparisons st) = cc_visited st"
  "cc_visited (push_step d l ds opn st) = cc_visited st"
  "cc_component (set_node i v st) = cc_component st"
  "cc_component (set_edge j ev st) = cc_component st"
  "cc_component (set_edge_opt e ev st) = cc_component st"
  "cc_component (reject_unless_solution e st) = cc_component st"
  "cc_component (inc_nodesVisited k st) = cc_component st"
  "cc_component (inc_edgesExamined st) = cc_component st"
  "cc_component (inc_operationsCount st) = cc_component st"
  "cc_component (inc_comparisons st) = cc_component st"
  "cc_component (push_step d l ds opn st) = cc_component st"
  "cc_componentId (set_node i v st) = cc_componentId st"
  "cc_componentId (set_edge j ev st) = cc_componentId st"
  "cc_componentId (set_edge_opt e ev st) = cc_componentId st"
  "cc_componentId (reject_unless_solution e st) = cc_componentId st"
  "cc_componentId (inc_nodesVisited k st) = cc_componentId st"
  "cc_componentId (inc_edgesExamined st) = cc_componentId st"
  "cc_componentId (inc_operationsCount st) = cc_componentId st"
  "cc_componentId (inc_comparisons st) = cc_componentId st"
  "cc_componentId (push_step d l ds opn st) = cc_componentId st"
  by (simp_all add: set_node_def set_edge_def set_edge_opt_def reject_unless_solution_def
        inc_nodesVisited_def inc_edgesExamined_def inc_operationsCount_def inc_comparisons_def
        push_step_def split: option.splits)

lemma cc_visited_enter [simp]:
  "cc_visited (cc_enter g node i k st) = set_add i (cc_visited st)"
  by (simp add: cc_enter_def Let_def)

lemma cc_visited_mono_dom:
  "cc_dfs_cc_neighbors_dom (Inl (g, al, i, k, st)) \<Longrightarrow> cc_dfs g al i k st = Inr st' \<Longrightarrow>
     set (cc_visited st) \<subseteq> set (cc_visited st')"
  "cc_dfs_cc_neighbors_dom (Inr (g, al, i, k, ns, st)) \<Longrightarrow> cc_neighbors g al i k ns st = Inr st' \<Longrightarrow>
     set (cc_visited st) \<subseteq> set (cc_visited st')"
proof (induction g al i k st and g al i k ns st arbitrary: st' and st' rule: cc_dfs_cc_neighbors.pinduct)
  case (1 g al nodeId compId st)
  from "1.prems" obtain node where node: "getNode g nodeId = Some node"
    and r: "cc_neighbors g al nodeId compId (neighbors_of al nodeId) (cc_enter g node nodeId compId st) = Inr st'"
    by (cases "getNode g nodeId") (simp_all add: cc_dfs.psimps [OF "1.hyps"])
  from "1.IH" [OF node r] show ?case by (auto simp: set_add_def split: if_splits)
next
  case (2 g al nodeId compId st)
  then show ?case by (simp add: cc_neighbors.psimps)
next
  case (3 g al nodeId compId nw rest st)
  note ps = cc_neighbors.psimps(2) [OF "3.hyps"]
  show ?case
  proof (cases "fst nw \<notin> set (cc_visited st)")
    case True
    let ?st1 = "set_edge_opt (getEdgeBetween g nodeId (fst nw)) E_IN_SOLUTION (inc_edgesExamined st)"
    have eq: "(case cc_dfs g al (fst nw) compId ?st1 of Inl e \<Rightarrow> Inl e
               | Inr st2 \<Rightarrow> cc_neighbors g al nodeId compId rest st2) = Inr st'"
      using "3.prems" True by (subst (asm) ps) simp
    then obtain st2 where r: "cc_dfs g al (fst nw) compId ?st1 = Inr st2"
      by (cases "cc_dfs g al (fst nw) compId ?st1") auto
    have a: "set (cc_visited st) \<subseteq> set (cc_visited st2)"
      using "3.IH"(1) [OF True r] by simp
    have "cc_neighbors g al nodeId compId rest st2 = Inr st'" using eq r by simp
    then have "set (cc_visited st2) \<subseteq> set (cc_visited st')"
      using "3.IH"(2) [OF True r] by simp
    then show ?thesis using a by blast
  next
    case False
    then have "cc_neighbors g al nodeId compId rest (inc_edgesExamined st) = Inr st'"
      using "3.prems" by (subst (asm) ps) simp
    then show ?thesis using "3.IH"(3) [OF False] by simp
  qed
qed

definition cc_todo :: "adjlist \<Rightarrow> string set \<Rightarrow> cc_state \<Rightarrow> nat" where
  "cc_todo al extra st = card ((adj_ids al \<union> extra) - set (cc_visited st))"

termination cc_dfs
proof (relation "measures
    [\<lambda>x. case x of Inl (g, al, i, k, st) \<Rightarrow> cc_todo al {} (st\<lparr>cc_visited := i # cc_visited st\<rparr>) + 1
                 | Inr (g, al, i, k, ns, st) \<Rightarrow> cc_todo al (fst ` set ns) st,
     \<lambda>x. case x of Inl _ \<Rightarrow> 0 | Inr (g, al, i, k, ns, st) \<Rightarrow> length ns + 1]",
    goal_cases)
  case 1
  show ?case by simp
next
  case (2 g al nodeId compId st node)
  have nb: "fst ` set (neighbors_of al nodeId) \<subseteq> adj_ids al"
    using neighbors_of_adj_ids by fastforce
  then have "(adj_ids al \<union> fst ` set (neighbors_of al nodeId)) = adj_ids al" by blast
  then have "cc_todo al (fst ` set (neighbors_of al nodeId)) (cc_enter g node nodeId compId st)
             = cc_todo al {} (st\<lparr>cc_visited := nodeId # cc_visited st\<rparr>)"
    by (simp add: cc_todo_def set_add_def insert_absorb)
  then show ?case by simp
next
  case (3 g al nodeId compId nw rest st)
  let ?st1 = "set_edge_opt (getEdgeBetween g nodeId (fst nw)) E_IN_SOLUTION (inc_edgesExamined st)"
  have fin: "finite ((adj_ids al \<union> fst ` set (nw # rest)) - set (cc_visited st))"
    by (simp add: finite_adj_ids)
  have mem: "fst nw \<in> (adj_ids al \<union> fst ` set (nw # rest)) - set (cc_visited st)"
    using 3 by simp
  have "insert (fst nw) ((adj_ids al \<union> {}) - set (fst nw # cc_visited st))
        \<subseteq> (adj_ids al \<union> fst ` set (nw # rest)) - set (cc_visited st)"
    using 3 by auto
  then have "card (insert (fst nw) ((adj_ids al \<union> {}) - set (fst nw # cc_visited st)))
        \<le> card ((adj_ids al \<union> fst ` set (nw # rest)) - set (cc_visited st))"
    using fin by (rule card_mono [rotated])
  moreover have "card (insert (fst nw) ((adj_ids al \<union> {}) - set (fst nw # cc_visited st)))
        = card ((adj_ids al \<union> {}) - set (fst nw # cc_visited st)) + 1"
    by (subst card_insert_disjoint) (simp_all add: finite_adj_ids)
  ultimately have "cc_todo al {} (?st1\<lparr>cc_visited := fst nw # cc_visited ?st1\<rparr>) + 1
        \<le> cc_todo al (fst ` set (nw # rest)) st"
    by (simp add: cc_todo_def)
  then show ?case by auto
next
  case (4 g al nodeId compId nw rest st st')
  let ?st1 = "set_edge_opt (getEdgeBetween g nodeId (fst nw)) E_IN_SOLUTION (inc_edgesExamined st)"
  have "set (cc_visited ?st1) \<subseteq> set (cc_visited st')"
    using cc_visited_mono_dom(1) [OF 4(3) 4(2)] .
  then have "(adj_ids al \<union> fst ` set rest) - set (cc_visited st')
        \<subseteq> (adj_ids al \<union> fst ` set (nw # rest)) - set (cc_visited st)"
    by auto
  then have "cc_todo al (fst ` set rest) st' \<le> cc_todo al (fst ` set (nw # rest)) st"
    unfolding cc_todo_def by (intro card_mono) (simp_all add: finite_adj_ids)
  then show ?case by auto
next
  case (5 g al nodeId compId nw rest st)
  have "(adj_ids al \<union> fst ` set rest) - set (cc_visited (inc_edgesExamined st))
        \<subseteq> (adj_ids al \<union> fst ` set (nw # rest)) - set (cc_visited st)"
    by auto
  then have "cc_todo al (fst ` set rest) (inc_edgesExamined st) \<le> cc_todo al (fst ` set (nw # rest)) st"
    unfolding cc_todo_def by (intro card_mono) (simp_all add: finite_adj_ids)
  then show ?case by auto
qed

declare cc_dfs.simps [simp del] cc_neighbors.simps [simp del]

fun cc_roots :: "Graph \<Rightarrow> adjlist \<Rightarrow> Node list \<Rightarrow> cc_state \<Rightarrow> error + cc_state" where
  "cc_roots g al [] st = Inr st"
| "cc_roots g al (node # rest) st =
     (if nid node \<notin> set (cc_visited st) then
        (let st1 = push_step [T ''Start new component '', K (cc_componentId st + 1), T '' from '',
                              L (Some (label node)), T ''.''] 4
                             [(''componentCount'', Count (cc_componentId st + 1))]
                             [T ''New component from '', L (Some (label node))] st
         in case cc_dfs g al (nid node) (cc_componentId st1) st1 of
              Inl e \<Rightarrow> Inl e
            | Inr st2 \<Rightarrow> cc_roots g al rest (st2\<lparr>cc_componentId := cc_componentId st2 + 1\<rparr>))
      else cc_roots g al rest st)"

definition cc_init :: "Graph \<Rightarrow> cc_state" where
  "cc_init g =
     (let st0 = \<lparr>nstates = init_nstates g, estates = init_estates g, mets = zero_metrics, steps = [],
                 cc_visited = [], cc_component = [], cc_componentId = 0\<rparr>
      in push_step [T ''Start finding connected components.''] 0
                   [(''componentCount'', Count 0)] [T ''Initialize''] st0)"

definition cc_finish :: "Graph \<Rightarrow> cc_state \<Rightarrow> AlgorithmStep list" where
  "cc_finish g st =
     steps (push_step [T ''Found '', K (cc_componentId st), T '' connected component(s).''] 5
                      [(''componentCount'', Count (cc_componentId st)),
                       (''components'', formatComponents g (cc_component st))]
                      [T ''Complete''] st)"

definition executeConnectedComponents :: "Graph \<Rightarrow> AlgorithmParams \<Rightarrow> error + AlgorithmStep list" where
  "executeConnectedComponents g params =
     (case cc_roots g (toAdjacencyList g) (nodes g) (cc_init g) of
        Inl e \<Rightarrow> Inl e
      | Inr st \<Rightarrow> Inr (cc_finish g st))"

section \<open>The registry (algorithms/index.ts)\<close>

text \<open>
  The nine entries of \<open>algorithms\<close>, and \<open>execute\<close> of an entry. The outcomes are put in
  one type: \<open>None\<close> when the executor does not return, \<open>Some (Inl e)\<close> when it throws,
  \<open>Some (Inr steps)\<close> when it returns the steps.
\<close>

datatype algorithm_id =
  BFS | DFS | DIJKSTRA | ASTAR | KRUSKAL | PRIM | TOPOLOGICAL | CYCLE_DETECTION | CONNECTED_COMPONENTS

fun execute :: "algorithm_id \<Rightarrow> Graph \<Rightarrow> AlgorithmParams \<Rightarrow> (error + AlgorithmStep list) option" where
  "execute BFS g params = Some (Inr (executeBFS g params))"
| "execute DFS g params = Some (Inr (executeDFS g params))"
| "execute DIJKSTRA g params = map_option Inr (executeDijkstra g params)"
| "execute ASTAR g params = executeAStar g params"
| "execute KRUSKAL g params = map_option Inr (executeKruskal g params)"
| "execute PRIM g params = Some (executePrim g params)"
| "execute TOPOLOGICAL g params = Some (executeTopologicalSort g params)"
| "execute CYCLE_DETECTION g params = Some (executeCycleDetection g params)"
| "execute CONNECTED_COMPONENTS g params = Some (executeConnectedComponents g params)"

section \<open>Depth-first search against a recursive reference\<close>

text \<open>
  The reference, written from the specification's words and not from the executor: a
  recursive depth-first search that marks a node visited when it enters it and then scans
  the node's adjacency list in forward order, entering every neighbour in turn. The list
  \<open>vis\<close> is the visit order so far.
\<close>


function rec_dfs :: "adjlist \<Rightarrow> string list \<Rightarrow> string \<Rightarrow> string list"
  and rec_dfs_list :: "adjlist \<Rightarrow> string list \<Rightarrow> string list \<Rightarrow> string list" where
  "rec_dfs al vis v =
     (if v \<in> set vis then vis else rec_dfs_list al (vis @ [v]) (map fst (neighbors_of al v)))"
| "rec_dfs_list al vis [] = vis"
| "rec_dfs_list al vis (n # ns) = rec_dfs_list al (rec_dfs al vis n) ns"
  by pat_completeness auto


lemma rec_dfs_mono_dom:
  "rec_dfs_rec_dfs_list_dom (Inl (al, vis, v)) \<Longrightarrow> set vis \<subseteq> set (rec_dfs al vis v)"
  "rec_dfs_rec_dfs_list_dom (Inr (al, vis, ns)) \<Longrightarrow> set vis \<subseteq> set (rec_dfs_list al vis ns)"
proof (induction al vis v and al vis ns rule: rec_dfs_rec_dfs_list.pinduct)
  case (1 al vis v)
  then show ?case by (auto simp: rec_dfs.psimps)
next
  case (2 al vis)
  then show ?case by (simp add: rec_dfs_list.psimps)
next
  case (3 al vis n ns)
  then show ?case by (auto simp: rec_dfs_list.psimps)
qed

definition rec_todo :: "adjlist \<Rightarrow> string list \<Rightarrow> string list \<Rightarrow> nat" where
  "rec_todo al vis ns = card ((adj_ids al \<union> set ns) - set vis)"

termination rec_dfs
proof (relation "measures [\<lambda>x. case x of Inl (al, vis, v) \<Rightarrow> rec_todo al vis [v]
                                        | Inr (al, vis, ns) \<Rightarrow> rec_todo al vis ns,
                          \<lambda>x. case x of Inl _ \<Rightarrow> 0 | Inr (al, vis, ns) \<Rightarrow> Suc (length ns)]")
  show "wf (measures [\<lambda>x. case x of Inl (al, vis, v) \<Rightarrow> rec_todo al vis [v]
                                        | Inr (al, vis, ns) \<Rightarrow> rec_todo al vis ns,
                          \<lambda>x. case x of Inl _ \<Rightarrow> 0 | Inr (al, vis, ns) \<Rightarrow> Suc (length ns)])"
    by simp
next
  fix al :: adjlist and vis :: "string list" and v :: string
  assume nv: "v \<notin> set vis"
  have nb: "set (map fst (neighbors_of al v)) \<subseteq> adj_ids al"
    using neighbors_of_adj_ids by fastforce
  have "(adj_ids al \<union> set (map fst (neighbors_of al v))) - set (vis @ [v])
        \<subset> (adj_ids al \<union> set [v]) - set vis"
    using nb nv by auto
  then have "rec_todo al (vis @ [v]) (map fst (neighbors_of al v)) < rec_todo al vis [v]"
    unfolding rec_todo_def by (intro psubset_card_mono) (simp_all add: finite_adj_ids)
  then show "(Inr (al, vis @ [v], map fst (neighbors_of al v)), Inl (al, vis, v))
      \<in> measures [\<lambda>x. case x of Inl (al, vis, v) \<Rightarrow> rec_todo al vis [v]
                                        | Inr (al, vis, ns) \<Rightarrow> rec_todo al vis ns,
                          \<lambda>x. case x of Inl _ \<Rightarrow> 0 | Inr (al, vis, ns) \<Rightarrow> Suc (length ns)]"
    by simp
next
  fix al :: adjlist and vis :: "string list" and n :: string and ns :: "string list"
  have "rec_todo al vis [n] \<le> rec_todo al vis (n # ns)"
    unfolding rec_todo_def by (intro card_mono) (auto simp: finite_adj_ids)
  then show "(Inl (al, vis, n), Inr (al, vis, n # ns))
      \<in> measures [\<lambda>x. case x of Inl (al, vis, v) \<Rightarrow> rec_todo al vis [v]
                                        | Inr (al, vis, ns) \<Rightarrow> rec_todo al vis ns,
                          \<lambda>x. case x of Inl _ \<Rightarrow> 0 | Inr (al, vis, ns) \<Rightarrow> Suc (length ns)]"
    by auto
next
  fix al :: adjlist and vis :: "string list" and n :: string and ns :: "string list"
  assume "rec_dfs_rec_dfs_list_dom (Inl (al, vis, n))"
  then have "set vis \<subseteq> set (rec_dfs al vis n)" by (rule rec_dfs_mono_dom)
  then have "rec_todo al (rec_dfs al vis n) ns \<le> rec_todo al vis (n # ns)"
    unfolding rec_todo_def by (intro card_mono) (auto simp: finite_adj_ids)
  then show "(Inr (al, rec_dfs al vis n, ns), Inr (al, vis, n # ns))
      \<in> measures [\<lambda>x. case x of Inl (al, vis, v) \<Rightarrow> rec_todo al vis [v]
                                        | Inr (al, vis, ns) \<Rightarrow> rec_todo al vis ns,
                          \<lambda>x. case x of Inl _ \<Rightarrow> 0 | Inr (al, vis, ns) \<Rightarrow> Suc (length ns)]"
    by auto
qed

declare rec_dfs.simps [simp del]

lemma rec_dfs_mono:
  "set vis \<subseteq> set (rec_dfs al vis v)"
  "set vis \<subseteq> set (rec_dfs_list al vis ns)"
proof (induction al vis v and al vis ns rule: rec_dfs_rec_dfs_list.induct)
  case (1 al vis v)
  then show ?case by (auto simp: rec_dfs.simps)
next
  case (2 al vis)
  then show ?case by simp
next
  case (3 al vis n ns)
  then show ?case by auto
qed

lemma rec_dfs_visited [simp]: "v \<in> set vis \<Longrightarrow> rec_dfs al vis v = vis"
  by (simp add: rec_dfs.simps)

lemma rec_dfs_list_append:
  "rec_dfs_list al vis (xs @ ys) = rec_dfs_list al (rec_dfs_list al vis xs) ys"
  by (induction xs arbitrary: vis) simp_all

lemma rec_dfs_list_filter:
  "V0 \<subseteq> set vis \<Longrightarrow>
   rec_dfs_list al vis (filter (\<lambda>n. n \<notin> V0) xs) = rec_dfs_list al vis xs"
proof (induction xs arbitrary: vis)
  case Nil
  then show ?case by simp
next
  case (Cons x xs)
  show ?case
  proof (cases "x \<in> V0")
    case True
    then have "x \<in> set vis" using Cons.prems by auto
    then show ?thesis using True Cons by simp
  next
    case False
    have "V0 \<subseteq> set (rec_dfs al vis x)" using Cons.prems rec_dfs_mono(1) by blast
    then show ?thesis using False Cons.IH by simp
  qed
qed

lemma dfs_loop_visited:
  "dfs_visited (dfs_loop g al st) = rec_dfs_list al (dfs_visited st) (dfs_stack st)"
proof (induction g al st rule: dfs_loop.induct)
  case (1 g al st)
  show ?case
  proof (cases "dfs_stack st")
    case Nil
    then show ?thesis by (simp add: dfs_loop.simps)
  next
    case (Cons c rest)
    let ?st' = "dfs_iter g al c (st\<lparr>dfs_stack := rest\<rparr>)"
    have ih: "dfs_visited (dfs_loop g al ?st') = rec_dfs_list al (dfs_visited ?st') (dfs_stack ?st')"
      using "1.IH" [OF Cons] .
    have unf: "dfs_loop g al st = dfs_loop g al ?st'"
      using Cons by (subst dfs_loop.simps) simp
    show ?thesis
    proof (cases "c \<in> set (dfs_visited st)")
      case True
      then show ?thesis using ih unf Cons
        by (simp add: dfs_iter_visited dfs_iter_stack set_add_def)
    next
      case False
      let ?vis = "dfs_visited st @ [c]"
      have flt: "filter (\<lambda>n. n \<noteq> c \<and> n \<notin> set (dfs_visited st)) xs = filter (\<lambda>n. n \<notin> set ?vis) xs" for xs
        by (rule filter_cong) auto
      have v': "dfs_visited ?st' = ?vis"
        using False by (simp add: dfs_iter_visited set_add_def)
      have s': "dfs_stack ?st' = filter (\<lambda>n. n \<notin> set ?vis) (map fst (neighbors_of al c)) @ rest"
        using False by (simp only: dfs_iter_stack flt) simp
      have "dfs_visited (dfs_loop g al st) =
            rec_dfs_list al ?vis (filter (\<lambda>n. n \<notin> set ?vis) (map fst (neighbors_of al c)) @ rest)"
        by (simp only: unf ih v' s')
      also have "\<dots> = rec_dfs_list al (rec_dfs_list al ?vis (map fst (neighbors_of al c))) rest"
        using rec_dfs_list_filter [of "set ?vis" ?vis al "map fst (neighbors_of al c)"]
        by (simp only: rec_dfs_list_append)
      also have "\<dots> = rec_dfs_list al (rec_dfs al (dfs_visited st) c) rest"
        using False by (simp add: rec_dfs.simps)
      finally show ?thesis using Cons by simp
    qed
  qed
qed

section \<open>Concrete graphs used below\<close>

definition params_start :: "string \<Rightarrow> AlgorithmParams" where
  "params_start s = \<lparr>startNodeId = Some s, endNodeId = None, heuristic = None\<rparr>"

definition graph_single_edge :: "bool \<Rightarrow> Graph" where
  "graph_single_edge dir =
     \<lparr>nodes = [\<lparr>nid = ''a'', label = ''A'', pos_x = 0, pos_y = 0\<rparr>,
               \<lparr>nid = ''b'', label = ''B'', pos_x = 100, pos_y = 0\<rparr>],
      edges = [\<lparr>eid = ''e1'', source = ''a'', target = ''b'', weight = 1\<rparr>],
      directed = dir, weighted = False\<rparr>"

definition graph_triangle :: Graph where
  "graph_triangle =
     \<lparr>nodes = [\<lparr>nid = ''a'', label = ''A'', pos_x = 0, pos_y = 0\<rparr>,
               \<lparr>nid = ''b'', label = ''B'', pos_x = 100, pos_y = 0\<rparr>,
               \<lparr>nid = ''c'', label = ''C'', pos_x = 100, pos_y = 100\<rparr>],
      edges = [\<lparr>eid = ''ab'', source = ''a'', target = ''b'', weight = 1\<rparr>,
               \<lparr>eid = ''bc'', source = ''b'', target = ''c'', weight = 2\<rparr>,
               \<lparr>eid = ''ac'', source = ''a'', target = ''c'', weight = 10\<rparr>],
      directed = False, weighted = True\<rparr>"

definition graph_kite :: Graph where
  "graph_kite =
     \<lparr>nodes = [\<lparr>nid = ''a'', label = ''A'', pos_x = 0, pos_y = 0\<rparr>,
               \<lparr>nid = ''b'', label = ''B'', pos_x = 100, pos_y = 0\<rparr>,
               \<lparr>nid = ''c'', label = ''C'', pos_x = 100, pos_y = 100\<rparr>,
               \<lparr>nid = ''d'', label = ''D'', pos_x = 0, pos_y = 100\<rparr>],
      edges = [\<lparr>eid = ''ab'', source = ''a'', target = ''b'', weight = 1\<rparr>,
               \<lparr>eid = ''ac'', source = ''a'', target = ''c'', weight = 10\<rparr>,
               \<lparr>eid = ''ad'', source = ''a'', target = ''d'', weight = 5\<rparr>,
               \<lparr>eid = ''bc'', source = ''b'', target = ''c'', weight = 2\<rparr>],
      directed = False, weighted = True\<rparr>"

definition graph_lone_node :: "string \<Rightarrow> Graph" where
  "graph_lone_node i =
     \<lparr>nodes = [\<lparr>nid = i, label = ''X'', pos_x = 0, pos_y = 0\<rparr>], edges = [],
      directed = False, weighted = False\<rparr>"

definition params_start_end :: "string \<Rightarrow> string \<Rightarrow> AlgorithmParams" where
  "params_start_end s e = \<lparr>startNodeId = Some s, endNodeId = Some e, heuristic = None\<rparr>"

definition no_params :: AlgorithmParams where
  "no_params = \<lparr>startNodeId = None, endNodeId = None, heuristic = None\<rparr>"

definition graph_two_cycle :: Graph where
  "graph_two_cycle =
     \<lparr>nodes = [\<lparr>nid = ''a'', label = ''A'', pos_x = 0, pos_y = 0\<rparr>,
               \<lparr>nid = ''b'', label = ''B'', pos_x = 100, pos_y = 0\<rparr>],
      edges = [\<lparr>eid = ''ab'', source = ''a'', target = ''b'', weight = 1\<rparr>,
               \<lparr>eid = ''ba'', source = ''b'', target = ''a'', weight = 1\<rparr>],
      directed = True, weighted = False\<rparr>"

definition graph_dag :: Graph where
  "graph_dag =
     \<lparr>nodes = [\<lparr>nid = ''a'', label = ''A'', pos_x = 0, pos_y = 0\<rparr>,
               \<lparr>nid = ''b'', label = ''B'', pos_x = 100, pos_y = 0\<rparr>,
               \<lparr>nid = ''c'', label = ''C'', pos_x = 100, pos_y = 100\<rparr>],
      edges = [\<lparr>eid = ''ab'', source = ''a'', target = ''b'', weight = 1\<rparr>,
               \<lparr>eid = ''bc'', source = ''b'', target = ''c'', weight = 1\<rparr>,
               \<lparr>eid = ''ac'', source = ''a'', target = ''c'', weight = 1\<rparr>],
      directed = True, weighted = False\<rparr>"

definition graph_three_cycle :: Graph where
  "graph_three_cycle =
     \<lparr>nodes = [\<lparr>nid = ''a'', label = ''A'', pos_x = 0, pos_y = 0\<rparr>,
               \<lparr>nid = ''b'', label = ''B'', pos_x = 100, pos_y = 0\<rparr>,
               \<lparr>nid = ''c'', label = ''C'', pos_x = 100, pos_y = 100\<rparr>],
      edges = [\<lparr>eid = ''ab'', source = ''a'', target = ''b'', weight = 1\<rparr>,
               \<lparr>eid = ''bc'', source = ''b'', target = ''c'', weight = 1\<rparr>,
               \<lparr>eid = ''ca'', source = ''c'', target = ''a'', weight = 1\<rparr>],
      directed = True, weighted = False\<rparr>"

definition params_astar :: "string \<Rightarrow> string \<Rightarrow> heuristic_kind option \<Rightarrow> AlgorithmParams" where
  "params_astar s e hk = \<lparr>startNodeId = Some s, endNodeId = Some e, heuristic = hk\<rparr>"

definition edge_history :: "string \<Rightarrow> AlgorithmStep list \<Rightarrow> EdgeState option list" where
  "edge_history e ss = map (\<lambda>s. map_of (edgeStates s) e) ss"

section \<open>Breadth-first search: tree edges\<close>

text \<open>
  C1. The claim: in the step sequence of \<open>executeBFS\<close>, an edge that is \<open>in_solution\<close> in
  some step is never \<open>rejected\<close> in a later step. On the undirected graph with the single
  edge A-B and start A the executor does downgrade the tree edge: when B is dequeued and
  looks back at A, the edge is first overwritten with \<open>examining\<close>, so the guard that
  protects \<open>in_solution\<close> edges no longer sees that state and the edge ends \<open>rejected\<close>.
  The nine steps show the edge as follows.
\<close>

theorem executeBFS_tree_edge_downgraded:
  "edge_history ''e1'' (executeBFS (graph_single_edge False) (params_start ''a'')) =
     [Some UNEXAMINED, Some UNEXAMINED, Some EXAMINING, Some E_IN_SOLUTION, Some E_IN_SOLUTION,
      Some E_IN_SOLUTION, Some EXAMINING, Some REJECTED, Some REJECTED]"
  by code_simp

section \<open>Depth-first search: visit order\<close>

lemma dfs_visited_mark_solution:
  "dfs_visited (foldl (\<lambda>s i. set_node i IN_SOLUTION s) st xs) = dfs_visited (st :: dfs_state)"
  by (induction xs arbitrary: st) simp_all

lemma last_push_step:
  "last (steps (push_step d l ds opn st)) =
     \<lparr>stepNumber = length (steps st) + 1, description = d, pseudocodeLine = l,
      nodeStates = nstates st, edgeStates = estates st, dataStructures = ds,
      currentOperation = opn, metrics = mets st\<rparr>"
  by (simp add: push_step_def)

text \<open>
  C5 as stated fails for a start node whose id is the empty string: \<open>!startNodeId\<close> holds
  for it, the executor returns no step and so marks nothing visited, while the reference
  search visits the node.
\<close>

theorem executeDFS_empty_id_counterexample:
  "executeDFS (graph_lone_node []) (params_start []) = [] \<and>
   rec_dfs (toAdjacencyList (graph_lone_node [])) [] [] = [[]]"
  by code_simp

text \<open>
  C5, amended: for every graph and every start node present in the graph whose id is not
  the empty string, the order in which the explicit-stack executor marks nodes visited
  (the set \<open>visited\<close> when its loop ends, which the last step displays by label) is the
  visit order of the recursive reference search from the same start node over the same
  adjacency list.
\<close>

theorem executeDFS_visit_order:
  assumes "startNodeId params = Some s" and "s \<noteq> []" and "s \<in> nid ` set (nodes g)"
  shows "dfs_visited (dfs_run g s) = rec_dfs (toAdjacencyList g) [] s \<and>
         map_of (dataStructures (last (executeDFS g params))) ''visited'' =
           Some (Labels (map (label_of g) (rec_dfs (toAdjacencyList g) [] s)))"
proof -
  have run: "dfs_visited (dfs_run g s) = rec_dfs (toAdjacencyList g) [] s"
    by (simp add: dfs_run_def Let_def dfs_loop_visited)
  have "find (\<lambda>n. nid n = s) (nodes g) \<noteq> None"
    using assms(3) by (auto simp: find_None_iff)
  then obtain n where "find (\<lambda>n. nid n = s) (nodes g) = Some n"
    by blast
  then have "last (executeDFS g params) =
      last (steps (push_step [T ''DFS complete. Visited '',
           K (length (dfs_visited (dfs_run g s))), T '' nodes.''] 9
           [(''stack'', Labels []),
            (''visited'', Labels (map (label_of g) (dfs_visited (dfs_run g s))))]
           [T ''Complete'']
           (foldl (\<lambda>s i. set_node i IN_SOLUTION s) (dfs_run g s) (dfs_visited (dfs_run g s)))))"
    using assms(1,2) by (simp add: executeDFS_def falsy_id_def Let_def dfs_visited_mark_solution)
  then show ?thesis using run by (simp add: last_push_step)
qed

theorem executeDFS_visit_order_witness:
  "dfs_visited (dfs_run graph_triangle ''a'') = rec_dfs (toAdjacencyList graph_triangle) [] ''a'' \<and>
   map_of (dataStructures (last (executeDFS graph_triangle (params_start ''a'')))) ''visited'' =
     Some (Labels (map (label_of graph_triangle) (rec_dfs (toAdjacencyList graph_triangle) [] ''a'')))"
  using executeDFS_visit_order [of "params_start ''a''" "''a''" graph_triangle]
  by (simp add: params_start_def graph_triangle_def)

section \<open>Dijkstra on the triangle\<close>

text \<open>
  C4. On the undirected weighted graph with edges A-B (1), B-C (2), A-C (10), Dijkstra from
  A to C returns eleven steps. Only the last one is the path-found step; it reports the
  path A, B, C with distance 3, all three nodes and the edges A-B and B-C are
  \<open>in_solution\<close>, and the direct edge A-C is not (it is left \<open>examining\<close>).
\<close>

theorem executeDijkstra_triangle_path:
  "map_option
     (\<lambda>ss. (map currentOperation ss, description (last ss), dataStructures (last ss),
            nodeStates (last ss), edgeStates (last ss)))
     (executeDijkstra graph_triangle (params_start_end ''a'' ''c'')) =
   Some ([[T ''Initialize''],
          [T ''Process '', L (Some ''A'')],
          [T ''Relax edge to '', L (Some ''B'')], [T ''Update '', L (Some ''B'')],
          [T ''Relax edge to '', L (Some ''C'')], [T ''Update '', L (Some ''C'')],
          [T ''Process '', L (Some ''B'')],
          [T ''Relax edge to '', L (Some ''C'')], [T ''Update '', L (Some ''C'')],
          [T ''Process '', L (Some ''C'')],
          [T ''Path Found'']],
         [T ''Target '', L (Some ''C''), T '' reached! Shortest path distance: '', NumF (Num 3),
          T ''. Path: '', Joined '' -> '' [Some ''A'', Some ''B'', Some ''C'']],
         [(''distances'', NumTable [(''A'', Some (Num 0)), (''B'', Some (Num 1)), (''C'', Some (Num 3))]),
          (''path'', Labels [Some ''A'', Some ''B'', Some ''C''])],
         [(''a'', IN_SOLUTION), (''b'', IN_SOLUTION), (''c'', IN_SOLUTION)],
         [(''ab'', E_IN_SOLUTION), (''bc'', E_IN_SOLUTION), (''ac'', EXAMINING)])"
  by code_simp

section \<open>Cycle detection on two nodes\<close>

text \<open>
  The directed half of C2 holds: on the directed graph with the edges A to B and B to A the
  executor finds the back edge from B to A and reports a cycle.
\<close>

lemma executeCycleDetection_directed_two_cycle:
  "map_sum id (\<lambda>ss. (map currentOperation ss, dataStructures (last ss)))
     (executeCycleDetection graph_two_cycle no_params) =
   Inr ([[T ''Initialize''], [T ''Start from '', L (Some ''A'')], [T ''Visit '', L (Some ''A'')],
         [T ''Check '', L (Some ''B'')], [T ''Visit '', L (Some ''B'')],
         [T ''Check '', L (Some ''A'')], [T ''Cycle Found''], [T ''Complete - Cycle Found'']],
        [(''hasCycle'', Flag True)])"
  by code_simp

text \<open>
  C2. The claim: on the undirected graph with the single edge A-B the executor reports no
  cycle. The executor reports one. The adjacency list of an undirected graph holds the edge
  in both directions and the search does not remember the node it came from, so when it
  stands on B it sees its own parent A, which is gray, and takes the tree edge for a back
  edge. The final step has \<open>hasCycle = true\<close> and the nodes are not all \<open>in_solution\<close>.
\<close>

theorem executeCycleDetection_single_undirected_edge:
  "map_sum id (\<lambda>ss. (map currentOperation ss, map dataStructures (drop 6 ss), nodeStates (last ss)))
     (executeCycleDetection (graph_single_edge False) no_params) =
   Inr ([[T ''Initialize''], [T ''Start from '', L (Some ''A'')], [T ''Visit '', L (Some ''A'')],
         [T ''Check '', L (Some ''B'')], [T ''Visit '', L (Some ''B'')],
         [T ''Check '', L (Some ''A'')], [T ''Cycle Found''], [T ''Complete - Cycle Found'']],
        [[(''cycleEdge'', Phrase [L (Some ''B''), T '' -> '', L (Some ''A'')])],
         [(''hasCycle'', Flag True)]],
        [(''a'', IN_SOLUTION), (''b'', VISITING)])"
  by code_simp

section \<open>Topological sort on a DAG and on a cycle\<close>

text \<open>
  C8. On the directed graph with the edges A to B, B to C and A to C the executor ends with
  the completion step, whose result is A, B, C: A is before B and B before C. On the
  directed cycle A to B to C to A no node has in-degree zero, the executor ends with the
  cycle-detected step, and the reported result is empty, so its length is below 3.
\<close>

theorem executeTopologicalSort_dag_and_cycle:
  "map_sum id (\<lambda>ss. (currentOperation (last ss), dataStructures (last ss)))
     (executeTopologicalSort graph_dag no_params) =
   Inr ([T ''Complete''], [(''result'', Labels [Some ''A'', Some ''B'', Some ''C''])]) \<and>
   map_sum id (\<lambda>ss. (map currentOperation ss, description (last ss), dataStructures (last ss)))
     (executeTopologicalSort graph_three_cycle no_params) =
   Inr ([[T ''Calculate in-degrees''], [T ''Initialize queue''], [T ''Cycle Detected'']],
        [T ''Cycle detected! Only '', K 0, T '' of '', K 3, T '' nodes processed.''],
        [(''result'', Labels [])])"
  by code_simp

section \<open>A* when the start is the goal\<close>

lemma as_h_self:
  "getNode g x = Some n \<Longrightarrow> as_h g n hk x = Num 0"
  by (simp add: as_h_def calculateDistance_def)

lemma init_estates_unexamined:
  "e \<in> set (edges g) \<Longrightarrow> map_of (init_estates g) (eid e) = Some UNEXAMINED"
proof -
  have h: "map_of (foldl (\<lambda>m e. AList.update (eid e) UNEXAMINED m) m0 es) k =
        (if k \<in> eid ` set es then Some UNEXAMINED else map_of m0 k)" for m0 es k
    by (induction es arbitrary: m0) (auto simp: update_conv')
  show "e \<in> set (edges g) \<Longrightarrow> map_of (init_estates g) (eid e) = Some UNEXAMINED"
    by (simp add: init_estates_def h)
qed

lemma estates_prims [simp]:
  "estates (set_node i v st) = estates st"
  "estates (inc_nodesVisited k st) = estates st"
  "estates (inc_edgesExamined st) = estates st"
  "estates (inc_operationsCount st) = estates st"
  "estates (inc_comparisons st) = estates st"
  "estates (push_step d l ds opn st) = estates st"
  by (simp_all add: set_node_def inc_nodesVisited_def inc_edgesExamined_def
        inc_operationsCount_def inc_comparisons_def push_step_def)

lemma steps_prims [simp]:
  "steps (set_node i v st) = steps st"
  "steps (set_edge j ev st) = steps st"
  "steps (set_edge_opt e ev st) = steps st"
  "steps (reject_unless_solution e st) = steps st"
  "steps (inc_nodesVisited k st) = steps st"
  "steps (inc_edgesExamined st) = steps st"
  "steps (inc_operationsCount st) = steps st"
  "steps (inc_comparisons st) = steps st"
  by (simp_all add: set_node_def set_edge_def set_edge_opt_def reject_unless_solution_def
        inc_nodesVisited_def inc_edgesExamined_def inc_operationsCount_def inc_comparisons_def
        split: option.splits)

text \<open>
  C10 as stated fails for a node whose id is the empty string: \<open>!startNodeId\<close> holds for
  it and the executor returns no step at all.
\<close>

theorem executeAStar_empty_id_counterexample:
  "[] \<in> nid ` set (nodes (graph_lone_node [])) \<and>
   executeAStar (graph_lone_node []) (params_astar [] [] None) = Some (Inr [])"
  by (simp add: executeAStar_def falsy_id_def params_astar_def graph_lone_node_def)

text \<open>
  C10, amended: for every graph and every node of it whose id is not the empty string, A*
  from that node to itself returns exactly three steps, initialize, select and path found;
  the last one reports the path of that single node with cost 0, and in all three steps
  every edge of the graph is \<open>unexamined\<close>.
\<close>

theorem executeAStar_start_is_goal:
  assumes "x \<in> nid ` set (nodes g)" and "x \<noteq> []"
  shows "\<exists>s1 s2 s3.
           executeAStar g (params_astar x x hk) = Some (Inr [s1, s2, s3]) \<and>
           currentOperation s1 = [T ''Initialize''] \<and>
           currentOperation s2 = [T ''Process '', L (label_of g x)] \<and>
           currentOperation s3 = [T ''Path Found''] \<and>
           dataStructures s3 = [(''path'', Labels [label_of g x])] \<and>
           description s3 = [T ''Goal reached! Path: '', Joined '' -> '' [label_of g x],
                             T ''. Cost: '', NumO (Some (Num 0))] \<and>
           (\<forall>s \<in> {s1, s2, s3}. \<forall>e \<in> set (edges g).
              map_of (edgeStates s) (eid e) = Some UNEXAMINED)"
proof -
  have "find (\<lambda>n. nid n = x) (nodes g) \<noteq> None"
    using assms(1) by (auto simp: find_None_iff)
  then obtain n where n: "getNode g x = Some n" by (auto simp: getNode_def)
  then have lbl: "label_of g x = Some (label n)" by (simp add: label_of_def)
  define st0 where "st0 = as_init g n hk x"
  define st1 where "st1 = as_select g n x (st0\<lparr>as_open := []\<rparr>)"
  define st2 where "st2 = mark_path_edges g [x] (foldl (\<lambda>s i. set_node i IN_SOLUTION s) st1 [x])"
  define st3 where "st3 = (push_step [T ''Goal reached! Path: '', Joined '' -> '' (map (label_of g) [x]),
                               T ''. Cost: '', NumO (map_of (as_gScore st2) x)] 6
                              [(''path'', Labels (map (label_of g) [x]))]
                              [T ''Path Found''] st2)\<lparr>as_found := True\<rparr>"
  have op0: "as_open st0 = [(Num 0, x)]" and nf0: "\<not> as_found st0" and cf0: "as_cameFrom st0 = []"
    and g0: "map_of (as_gScore st0) x = Some (Num 0)"
    by (simp_all add: st0_def as_init_def Let_def as_h_self [OF n] pq_enqueue_def pq_sort_def update_conv')
  have walk: "chain_walk (map_of (as_cameFrom st1)) (Some x) [] = Some [x]"
    using assms(2) cf0
    by (simp add: st1_def as_select_def Let_def chain_walk.simps)
  have goal: "as_reach_goal g x st1 = Some st3"
    by (simp add: as_reach_goal_def walk st3_def st2_def Let_def)
  have it: "as_iter g (toAdjacencyList g) n x hk x (st0\<lparr>as_open := []\<rparr>) = Some (Inr st3)"
    by (simp add: as_iter_def n Let_def st1_def [symmetric] goal)
  have f3: "as_found st3" by (simp add: st3_def)
  have loop: "as_loop g (toAdjacencyList g) n x hk st0 = Some (Inr st3)"
    using op0 nf0 it f3
    by (subst as_loop.simps) (simp add: as_loop.simps [of _ _ _ _ _ st3])
  have ex: "executeAStar g (params_astar x x hk) = Some (Inr (steps st3))"
    using assms(2) n loop f3
    by (simp add: executeAStar_def params_astar_def falsy_id_def st0_def [symmetric] as_finish_def)
  have s0: "steps st0 = [\<lparr>stepNumber = 1,
       description = [T ''Initialize A*. Start: '', L (label_of g x), T '', Goal: '',
                    L (Some (label n)), T ''. Using '',
                    T (case hk of Some Manhattan \<Rightarrow> ''manhattan'' | _ \<Rightarrow> ''euclidean''),
                    T '' heuristic.''],
       pseudocodeLine = 1, nodeStates = nstates st0, edgeStates = init_estates g,
       dataStructures = [(''scores'', formatScores g st0), (''openSet'', as_open_view g st0)],
       currentOperation = [T ''Initialize''], metrics = zero_metrics\<rparr>]"
    by (simp add: st0_def as_init_def Let_def push_step_def set_node_def formatScores_def as_open_view_def)
  have e0: "estates st0 = init_estates g"
    by (simp add: st0_def as_init_def Let_def)
  have e1: "estates st1 = init_estates g"
    by (simp add: st1_def as_select_def Let_def e0)
  have e2: "estates st2 = init_estates g"
    by (simp add: st2_def e1)
  have g2: "map_of (as_gScore st2) x = Some (Num 0)"
    by (simp add: st2_def st1_def as_select_def Let_def g0)
  define s2 where "s2 = last (steps st1)"
  have s1: "steps st1 = steps st0 @ [s2]"
    by (simp add: s2_def st1_def as_select_def Let_def push_step_def)
  have s2: "currentOperation s2 = [T ''Process '', L (label_of g x)]" "edgeStates s2 = init_estates g"
    by (simp_all add: s2_def st1_def as_select_def Let_def last_push_step e0 lbl)
  define s3 where "s3 = last (steps st3)"
  have s3: "steps st3 = steps st1 @ [s3]"
    by (simp add: s3_def st3_def push_step_def st2_def)
  have s3p: "currentOperation s3 = [T ''Path Found'']"
             "dataStructures s3 = [(''path'', Labels [label_of g x])]"
             "description s3 = [T ''Goal reached! Path: '', Joined '' -> '' [label_of g x],
                             T ''. Cost: '', NumO (Some (Num 0))]"
             "edgeStates s3 = init_estates g"
    using e2 g2 by (simp_all add: s3_def st3_def push_step_def)
  show ?thesis
    using ex s0 s1 s2 s3 s3p init_estates_unexamined [of _ g]
    by simp
qed

theorem executeAStar_start_is_goal_witness:
  "\<exists>s1 s2 s3.
     executeAStar graph_triangle (params_astar ''a'' ''a'' None) = Some (Inr [s1, s2, s3]) \<and>
     currentOperation s1 = [T ''Initialize''] \<and>
     currentOperation s2 = [T ''Process '', L (label_of graph_triangle ''a'')] \<and>
     currentOperation s3 = [T ''Path Found''] \<and>
     dataStructures s3 = [(''path'', Labels [label_of graph_triangle ''a''])] \<and>
     description s3 = [T ''Goal reached! Path: '', Joined '' -> '' [label_of graph_triangle ''a''],
                       T ''. Cost: '', NumO (Some (Num 0))] \<and>
     (\<forall>s \<in> {s1, s2, s3}. \<forall>e \<in> set (edges graph_triangle).
        map_of (edgeStates s) (eid e) = Some UNEXAMINED)"
  using executeAStar_start_is_goal [of "''a''" graph_triangle None]
  by (simp add: graph_triangle_def)

section \<open>A start node that is missing or not in the graph\<close>

text \<open>
  BFS, DFS and Dijkstra test both that \<open>startNodeId\<close> is given and that a node with this id
  exists, and return no step otherwise.
\<close>

lemma start_missing_or_unknown_empty:
  assumes "startNodeId params = None \<or> the (startNodeId params) \<notin> nid ` set (nodes g)"
  shows "executeBFS g params = []" and "executeDFS g params = []"
    and "executeDijkstra g params = Some []"
proof -
  have "falsy_id (startNodeId params) \<or> find (\<lambda>n. nid n = the (startNodeId params)) (nodes g) = None"
    using assms by (auto simp: falsy_id_def find_None_iff)
  then show "executeBFS g params = []" and "executeDFS g params = []"
    and "executeDijkstra g params = Some []"
    by (simp_all add: executeBFS_def executeDFS_def executeDijkstra_def)
qed

text \<open>
  C3. The claim: each executor that requires a start node returns no step when
  \<open>startNodeId\<close> is missing or is not the id of a node. Prim only tests that
  \<open>startNodeId\<close> is given. On a graph with the single node X and the start id \<open>zz\<close>,
  which no node has, it runs with every key infinite, adds X to the tree and returns three
  steps.
\<close>

theorem executePrim_unknown_start_runs:
  "''zz'' \<notin> nid ` set (nodes (graph_lone_node ''a'')) \<and>
   map_sum id (map currentOperation) (executePrim (graph_lone_node ''a'') (params_start ''zz'')) =
     Inr [[T ''Initialize''], [T ''Add '', L (Some ''X'')], [T ''Complete'']]"
  by code_simp

section \<open>Prim's queue holds each node once\<close>

text \<open>
  The states of a run of \<open>executePrim\<close>. \<open>prim_head\<close> holds of the states in which the
  test of the while loop is evaluated. \<open>prim_point\<close> holds, besides those, of the state
  after \<open>dequeue\<close> and of the state after each turn of the loop over the neighbours.
\<close>

inductive prim_head :: "Graph \<Rightarrow> string \<Rightarrow> prim_state \<Rightarrow> bool" for g :: Graph and startId :: string where
  start: "prim_head g startId (prim_init g startId)"
| turn: "prim_head g startId st \<Longrightarrow> pm_pq st = current # q \<Longrightarrow>
         prim_iter g (toAdjacencyList g) (snd current) (st\<lparr>pm_pq := q\<rparr>) = Inr st' \<Longrightarrow>
         prim_head g startId st'"

inductive prim_point :: "Graph \<Rightarrow> string \<Rightarrow> prim_state \<Rightarrow> bool" for g :: Graph and startId :: string where
  head: "prim_head g startId st \<Longrightarrow> prim_point g startId st"
| dequeued: "prim_head g startId st \<Longrightarrow> pm_pq st = current # q \<Longrightarrow>
             prim_point g startId (st\<lparr>pm_pq := q\<rparr>)"
| neighbour: "prim_head g startId st \<Longrightarrow> pm_pq st = current # q \<Longrightarrow>
              snd current \<notin> set (pm_inMST st) \<Longrightarrow> getNode g (snd current) = Some currentNode \<Longrightarrow>
              neighbors_of (toAdjacencyList g) (snd current) = seen @ rest \<Longrightarrow>
              prim_neighbors g currentNode (snd current) seen
                (prim_add g currentNode (snd current) (inc_operationsCount (st\<lparr>pm_pq := q\<rparr>))) = Inr st' \<Longrightarrow>
              prim_point g startId st'"

definition prim_inv :: "prim_state \<Rightarrow> bool" where
  "prim_inv st = (distinct (map snd (pm_pq st)) \<and> snd ` set (pm_pq st) \<inter> set (pm_inMST st) = {})"

lemma distinct_pq_insort:
  "distinct (map snd (pq_insort x ys)) \<longleftrightarrow> snd x \<notin> snd ` set ys \<and> distinct (map snd ys)"
  by (induction ys) auto

lemma distinct_pq_sort: "distinct (map snd (pq_sort xs)) \<longleftrightarrow> distinct (map snd xs)"
proof (induction xs)
  case Nil
  then show ?case by (simp add: pq_sort_def)
next
  case (Cons x xs)
  have "pq_sort (x # xs) = pq_insort x (pq_sort xs)" by (simp add: pq_sort_def)
  then show ?case using Cons by (simp add: distinct_pq_insort)
qed

lemma prim_enqueue_present:
  assumes "v \<in> snd ` set items"
  shows "prim_enqueue v p items =
           (if num_less p (fst (the (find (\<lambda>i. snd i = v) items)))
            then pq_sort (pq_set_first v p items) else items)"
proof -
  from assms obtain a where "find (\<lambda>i. snd i = v) items = Some a"
    using find_snd_None [of v items] by auto
  then show ?thesis by (simp add: prim_enqueue_def)
qed

lemma prim_enqueue_distinct:
  assumes "distinct (map snd items)"
  shows "distinct (map snd (prim_enqueue v p items))"
proof (cases "v \<in> snd ` set items")
  case True
  then show ?thesis using assms by (simp add: prim_enqueue_present distinct_pq_sort)
next
  case False
  then have "find (\<lambda>i. snd i = v) items = None" using find_snd_None [of v items] by simp
  then show ?thesis using assms False by (simp add: prim_enqueue_def distinct_pq_sort)
qed

lemma prim_init_inv: "prim_inv (prim_init g s)"
proof -
  have "distinct (map snd (foldl (\<lambda>items n. prim_enqueue (nid n) (f n) items) items0 ns))"
    if "distinct (map snd items0)" for f :: "Node \<Rightarrow> number" and items0 ns
    using that by (induction ns arbitrary: items0) (simp_all add: prim_enqueue_distinct)
  from this [of "[]"] show ?thesis by (simp add: prim_inv_def prim_init_def Let_def)
qed

lemma prim_neighbor_inv:
  assumes "prim_neighbor g cn c nw st = Inr st'" and "prim_inv st"
  shows "prim_inv st'"
proof -
  have m: "pm_inMST st' = pm_inMST st" using prim_neighbor_fields(1) [OF assms(1)] .
  from prim_neighbor_fields(2) [OF assms(1)] show ?thesis
  proof
    assume "pm_pq st' = pm_pq st"
    then show ?thesis using assms(2) m by (simp add: prim_inv_def)
  next
    assume "fst nw \<notin> set (pm_inMST st) \<and> (\<exists>p. pm_pq st' = prim_enqueue (fst nw) p (pm_pq st))"
    then obtain p where nm: "fst nw \<notin> set (pm_inMST st)"
      and pq: "pm_pq st' = prim_enqueue (fst nw) p (pm_pq st)" by blast
    show ?thesis using assms(2) nm
      by (auto simp: prim_inv_def m pq prim_enqueue_distinct prim_enqueue_values)
  qed
qed

lemma prim_neighbors_inv:
  "prim_neighbors g cn c ns st = Inr st' \<Longrightarrow> prim_inv st \<Longrightarrow> prim_inv st'"
proof (induction ns arbitrary: st)
  case Nil
  then show ?case by simp
next
  case (Cons nw ns)
  then obtain st1 where s1: "prim_neighbor g cn c nw st = Inr st1"
    and r: "prim_neighbors g cn c ns st1 = Inr st'"
    by (cases "prim_neighbor g cn c nw st") simp_all
  show ?case using Cons.IH [OF r prim_neighbor_inv [OF s1 Cons.prems(2)]] .
qed

lemma prim_dequeue_inv:
  assumes "prim_inv st" and "pm_pq st = current # q"
  shows "prim_inv (st\<lparr>pm_pq := q\<rparr>)" and "snd current \<notin> set (pm_inMST st)"
    and "prim_inv (prim_add g cn (snd current) (inc_operationsCount (st\<lparr>pm_pq := q\<rparr>)))"
  using assms by (auto simp: prim_inv_def set_add_def)

lemma prim_iter_inv:
  assumes "prim_iter g al (snd current) (st\<lparr>pm_pq := q\<rparr>) = Inr st'"
    and "prim_inv st" and "pm_pq st = current # q"
  shows "prim_inv st'"
proof -
  have nm: "snd current \<notin> set (pm_inMST (st\<lparr>pm_pq := q\<rparr>))"
    using prim_dequeue_inv(2) [OF assms(2,3)] by simp
  then obtain cn where cn: "getNode g (snd current) = Some cn"
    using assms(1) by (cases "getNode g (snd current)") (simp_all add: prim_iter_def Let_def)
  then have "prim_neighbors g cn (snd current) (neighbors_of al (snd current))
               (prim_add g cn (snd current) (inc_operationsCount (st\<lparr>pm_pq := q\<rparr>))) = Inr st'"
    using assms(1) nm by (simp add: prim_iter_def Let_def)
  then show ?thesis using prim_neighbors_inv prim_dequeue_inv(3) [OF assms(2,3)] by blast
qed

lemma prim_head_inv: "prim_head g s st \<Longrightarrow> prim_inv st"
proof (induction rule: prim_head.induct)
  case start
  show ?case by (rule prim_init_inv)
next
  case (turn st current q st')
  then show ?case using prim_iter_inv by blast
qed

lemma prim_point_inv: "prim_point g s st \<Longrightarrow> prim_inv st"
proof (induction rule: prim_point.induct)
  case (head st)
  then show ?case by (rule prim_head_inv)
next
  case (dequeued st current q)
  then show ?case using prim_dequeue_inv(1) prim_head_inv by blast
next
  case (neighbour st current q currentNode seen rest st')
  have "prim_inv st" using neighbour(1) by (rule prim_head_inv)
  from prim_dequeue_inv(3) [OF this neighbour(2)] neighbour(6) show ?case
    using prim_neighbors_inv by blast
qed

text \<open>The while loop runs through \<open>prim_head\<close> states only, up to the state it ends in.\<close>

lemma prim_loop_head:
  "prim_loop g (toAdjacencyList g) st = Inr st' \<Longrightarrow> prim_head g s st \<Longrightarrow> prim_head g s st'"
proof (induction g "toAdjacencyList g" st rule: prim_loop.induct)
  case (1 g st)
  show ?case
  proof (cases "pm_pq st")
    case Nil
    then show ?thesis using "1.prems" by (simp add: prim_loop.simps)
  next
    case (Cons current q)
    then obtain st1 where it: "prim_iter g (toAdjacencyList g) (snd current) (st\<lparr>pm_pq := q\<rparr>) = Inr st1"
      and r: "prim_loop g (toAdjacencyList g) st1 = Inr st'"
      using "1.prems"(1)
      by (cases "prim_iter g (toAdjacencyList g) (snd current) (st\<lparr>pm_pq := q\<rparr>)")
         (simp_all add: prim_loop.simps [of g _ st])
    have "prim_head g s st1" using prim_head.turn [OF "1.prems"(2) Cons it] .
    then show ?thesis using "1.hyps" [OF Cons it r] by simp
  qed
qed

text \<open>
  \<open>pq_priority v items\<close> is \<open>this.items[existing].priority\<close> for
  \<open>existing = this.items.findIndex(item => item.value === value)\<close>, and \<open>None\<close> when no
  entry holds \<open>v\<close>. \<open>pq_ordered\<close> says that the priorities never decrease along the list.
\<close>

definition pq_priority :: "string \<Rightarrow> (number \<times> string) list \<Rightarrow> number option" where
  "pq_priority v items = map_option fst (find (\<lambda>i. snd i = v) items)"

definition pq_ordered :: "(number \<times> string) list \<Rightarrow> bool" where
  "pq_ordered items = sorted_wrt (\<lambda>a b. num_le (fst a) (fst b)) items"

lemma num_le_total: "\<not> num_le a b \<Longrightarrow> num_le b a"
  by (cases a; cases b) (simp_all add: num_le_def)

lemma num_le_trans: "num_le a b \<Longrightarrow> num_le b c \<Longrightarrow> num_le a c"
  by (cases a; cases b; cases c) (simp_all add: num_le_def)

lemma pq_insort_ordered: "pq_ordered ys \<Longrightarrow> pq_ordered (pq_insort x ys)"
proof (induction ys)
  case Nil
  then show ?case by (simp add: pq_ordered_def)
next
  case (Cons y ys)
  show ?case
  proof (cases "num_le (fst x) (fst y)")
    case True
    then have "\<forall>z \<in> set ys. num_le (fst x) (fst z)"
      using Cons.prems num_le_trans by (auto simp: pq_ordered_def)
    then show ?thesis using True Cons.prems by (simp add: pq_ordered_def)
  next
    case False
    then have "num_le (fst y) (fst x)" by (rule num_le_total)
    moreover have "pq_ordered (pq_insort x ys)" using Cons by (simp add: pq_ordered_def)
    ultimately show ?thesis using False Cons.prems by (simp add: pq_ordered_def)
  qed
qed

lemma pq_sort_ordered: "pq_ordered (pq_sort xs)"
proof (induction xs)
  case Nil
  show ?case by (simp add: pq_sort_def pq_ordered_def)
next
  case (Cons x xs)
  have "pq_sort (x # xs) = pq_insort x (pq_sort xs)" by (simp add: pq_sort_def)
  then show ?case using Cons by (simp add: pq_insort_ordered)
qed

lemma pq_priority_find:
  "pq_priority v items = Some p0 \<longleftrightarrow> find (\<lambda>i. snd i = v) items = Some (p0, v)"
proof
  assume "pq_priority v items = Some p0"
  then obtain i where i: "find (\<lambda>i. snd i = v) items = Some i" and "fst i = p0"
    by (auto simp: pq_priority_def)
  moreover from i have "snd i = v" by (auto simp: find_Some_iff)
  ultimately show "find (\<lambda>i. snd i = v) items = Some (p0, v)" by (cases i) simp
next
  assume "find (\<lambda>i. snd i = v) items = Some (p0, v)"
  then show "pq_priority v items = Some p0" by (simp add: pq_priority_def)
qed

lemma set_pq_set_first_distinct:
  "distinct (map snd items) \<Longrightarrow> find (\<lambda>i. snd i = v) items = Some (p0, v) \<Longrightarrow>
   set (pq_set_first v p items) = insert (p, v) (set items - {(p0, v)})"
proof (induction items)
  case Nil
  then show ?case by simp
next
  case (Cons i items)
  show ?case
  proof (cases "snd i = v")
    case True
    then have i: "i = (p0, v)" using Cons.prems(2) by simp
    have "(p0, v) \<notin> set items" using Cons.prems(1) i by force
    then show ?thesis using i by auto
  next
    case False
    then have f: "find (\<lambda>i. snd i = v) items = Some (p0, v)" using Cons.prems(2) by simp
    have "set (pq_set_first v p items) = insert (p, v) (set items - {(p0, v)})"
      using Cons.IH [OF _ f] Cons.prems(1) by simp
    then show ?thesis using False by auto
  qed
qed

lemma distinct_find_entry:
  "distinct (map snd xs) \<Longrightarrow> (p, v) \<in> set xs \<Longrightarrow> find (\<lambda>i. snd i = v) xs = Some (p, v)"
proof (induction xs)
  case Nil
  then show ?case by simp
next
  case (Cons x xs)
  show ?case
  proof (cases "snd x = v")
    case True
    then have "x = (p, v)" using Cons.prems by (cases x) force
    then show ?thesis by simp
  next
    case False
    then show ?thesis using Cons by auto
  qed
qed

lemma prim_enqueue_lower:
  assumes "distinct (map snd items)" and "pq_priority v items = Some p0" and "num_less p p0"
  shows "set (prim_enqueue v p items) = insert (p, v) (set items - {(p0, v)})"
    and "pq_ordered (prim_enqueue v p items)"
    and "pq_priority v (prim_enqueue v p items) = Some p"
proof -
  have f: "find (\<lambda>i. snd i = v) items = Some (p0, v)" using assms(2) by (simp add: pq_priority_find)
  then have e: "prim_enqueue v p items = pq_sort (pq_set_first v p items)"
    using assms(3) by (simp add: prim_enqueue_def)
  show "set (prim_enqueue v p items) = insert (p, v) (set items - {(p0, v)})"
    using set_pq_set_first_distinct [OF assms(1) f] by (simp add: e)
  show "pq_ordered (prim_enqueue v p items)" by (simp add: e pq_sort_ordered)
  have "(p, v) \<in> set (prim_enqueue v p items)"
    using set_pq_set_first_distinct [OF assms(1) f] by (simp add: e)
  then show "pq_priority v (prim_enqueue v p items) = Some p"
    using distinct_find_entry [OF prim_enqueue_distinct [OF assms(1)]]
    by (simp add: pq_priority_find)
qed

lemma prim_enqueue_keep:
  assumes "pq_priority v items = Some p0" and "\<not> num_less p p0"
  shows "prim_enqueue v p items = items"
proof -
  have "find (\<lambda>i. snd i = v) items = Some (p0, v)" using assms(1) by (simp add: pq_priority_find)
  then show ?thesis using assms(2) by (simp add: prim_enqueue_def)
qed

lemma pq_priority_present: "pq_priority v items = Some p0 \<Longrightarrow> v \<in> snd ` set items"
  using find_snd_None [of v items] by (auto simp: pq_priority_def)

lemma prim_enqueue_ordered: "pq_ordered items \<Longrightarrow> pq_ordered (prim_enqueue v p items)"
  by (simp add: prim_enqueue_def pq_sort_ordered split: option.splits)

definition prim_ordered :: "prim_state \<Rightarrow> bool" where
  "prim_ordered st = pq_ordered (pm_pq st)"

lemma prim_init_ordered: "prim_ordered (prim_init g s)"
proof -
  have "pq_ordered (foldl (\<lambda>items n. prim_enqueue (nid n) (f n) items) items0 ns)"
    if "pq_ordered items0" for f :: "Node \<Rightarrow> number" and items0 ns
    using that by (induction ns arbitrary: items0) (simp_all add: prim_enqueue_ordered)
  from this [of "[]"] show ?thesis
    by (simp add: prim_ordered_def prim_init_def Let_def pq_ordered_def)
qed

lemma prim_neighbor_ordered:
  assumes "prim_neighbor g cn c nw st = Inr st'" and "prim_ordered st"
  shows "prim_ordered st'"
  using prim_neighbor_fields(2) [OF assms(1)] assms(2)
  by (auto simp: prim_ordered_def prim_enqueue_ordered)

lemma prim_neighbors_ordered:
  "prim_neighbors g cn c ns st = Inr st' \<Longrightarrow> prim_ordered st \<Longrightarrow> prim_ordered st'"
proof (induction ns arbitrary: st)
  case Nil
  then show ?case by simp
next
  case (Cons nw ns)
  then obtain st1 where s1: "prim_neighbor g cn c nw st = Inr st1"
    and r: "prim_neighbors g cn c ns st1 = Inr st'"
    by (cases "prim_neighbor g cn c nw st") simp_all
  show ?case using Cons.IH [OF r prim_neighbor_ordered [OF s1 Cons.prems(2)]] .
qed

lemma prim_dequeue_ordered:
  assumes "prim_ordered st" and "pm_pq st = current # q"
  shows "prim_ordered (st\<lparr>pm_pq := q\<rparr>)"
    and "prim_ordered (prim_add g cn c (inc_operationsCount (st\<lparr>pm_pq := q\<rparr>)))"
  using assms by (simp_all add: prim_ordered_def pq_ordered_def)

lemma prim_iter_ordered:
  assumes "prim_iter g al (snd current) (st\<lparr>pm_pq := q\<rparr>) = Inr st'"
    and "prim_ordered st" and "pm_pq st = current # q"
  shows "prim_ordered st'"
proof (cases "snd current \<in> set (pm_inMST st)")
  case True
  then have "st' = inc_operationsCount (st\<lparr>pm_pq := q\<rparr>)"
    using assms(1) by (simp add: prim_iter_skip)
  then show ?thesis using prim_dequeue_ordered(1) [OF assms(2,3)] by (simp add: prim_ordered_def)
next
  case False
  then obtain cn where cn: "getNode g (snd current) = Some cn"
    using assms(1) by (cases "getNode g (snd current)") (simp_all add: prim_iter_def Let_def)
  then have "prim_neighbors g cn (snd current) (neighbors_of al (snd current))
               (prim_add g cn (snd current) (inc_operationsCount (st\<lparr>pm_pq := q\<rparr>))) = Inr st'"
    using assms(1) False by (simp add: prim_iter_def Let_def)
  then show ?thesis using prim_neighbors_ordered prim_dequeue_ordered(2) [OF assms(2,3)] by blast
qed

lemma prim_head_ordered: "prim_head g s st \<Longrightarrow> prim_ordered st"
proof (induction rule: prim_head.induct)
  case start
  show ?case by (rule prim_init_ordered)
next
  case (turn st current q st')
  then show ?case using prim_iter_ordered by blast
qed

lemma prim_point_ordered: "prim_point g s st \<Longrightarrow> prim_ordered st"
proof (induction rule: prim_point.induct)
  case (head st)
  then show ?case by (rule prim_head_ordered)
next
  case (dequeued st current q)
  then show ?case using prim_dequeue_ordered(1) prim_head_ordered by blast
next
  case (neighbour st current q currentNode seen rest st')
  have "prim_ordered st" using neighbour(1) by (rule prim_head_ordered)
  from prim_dequeue_ordered(2) [OF this neighbour(2)] neighbour(6) show ?case
    using prim_neighbors_ordered by blast
qed

text \<open>
  C9. At every point of a run of \<open>executePrim\<close> the values in the priority queue are
  pairwise distinct and the queue is ordered by priority; the entry at the front of the
  queue is never in the tree already, so the skip after \<open>dequeue\<close> is never taken. When
  \<open>enqueue\<close> is called with a value \<open>v\<close> that such a queue holds with priority \<open>p0\<close> and
  the new priority \<open>p\<close> is strictly smaller, the queue afterwards holds \<open>v\<close> with priority
  \<open>p\<close>, its other entries are the same, and it is ordered; when \<open>p\<close> is not smaller the
  queue is unchanged. In both cases no entry is added.
\<close>

theorem prim_queue_one_entry_per_node:
  "(prim_point g s st \<longrightarrow> distinct (map snd (pm_pq st)) \<and> pq_ordered (pm_pq st)) \<and>
   (prim_head g s st \<and> pm_pq st = current # q \<longrightarrow> snd current \<notin> set (pm_inMST st)) \<and>
   (distinct (map snd items) \<and> pq_priority v items = Some p0 \<longrightarrow>
      (if num_less p p0
       then pq_priority v (prim_enqueue v p items) = Some p \<and>
            set (prim_enqueue v p items) = insert (p, v) (set items - {(p0, v)}) \<and>
            pq_ordered (prim_enqueue v p items)
       else prim_enqueue v p items = items) \<and>
      distinct (map snd (prim_enqueue v p items)) \<and>
      length (prim_enqueue v p items) = length items)"
proof -
  have "distinct (map snd (pm_pq st)) \<and> pq_ordered (pm_pq st)" if "prim_point g s st"
    using prim_point_inv [OF that] prim_point_ordered [OF that]
    by (simp add: prim_inv_def prim_ordered_def)
  moreover have "snd current \<notin> set (pm_inMST st)" if "prim_head g s st" "pm_pq st = current # q"
    using prim_dequeue_inv(2) [OF prim_head_inv [OF that(1)] that(2)] .
  moreover have "(if num_less p p0
       then pq_priority v (prim_enqueue v p items) = Some p \<and>
            set (prim_enqueue v p items) = insert (p, v) (set items - {(p0, v)}) \<and>
            pq_ordered (prim_enqueue v p items)
       else prim_enqueue v p items = items) \<and>
      distinct (map snd (prim_enqueue v p items)) \<and>
      length (prim_enqueue v p items) = length items"
    if d: "distinct (map snd items)" and pr: "pq_priority v items = Some p0"
    using prim_enqueue_lower [OF d pr] prim_enqueue_keep [OF pr] prim_enqueue_distinct [OF d]
      pq_priority_present [OF pr]
    by (simp add: prim_enqueue_length)
  ultimately show ?thesis by blast
qed

text \<open>
  Two turns of the loop on the graph with the edges A-B (1), A-C (10), A-D (5) and B-C (2),
  from A: the first turn leaves the queue B, D, C, and in the second the key of C drops
  from 10 to 2, which moves its entry in front of the one of D.
\<close>

theorem prim_queue_one_entry_per_node_witness:
  "\<exists>st1 st2.
     prim_iter graph_kite (toAdjacencyList graph_kite) ''a''
       ((prim_init graph_kite ''a'')
          \<lparr>pm_pq := [(Infinity, ''b''), (Infinity, ''c''), (Infinity, ''d'')]\<rparr>) = Inr st1 \<and>
     pm_pq st1 = [(Num 1, ''b''), (Num 5, ''d''), (Num 10, ''c'')] \<and> pm_inMST st1 = [''a''] \<and>
     prim_iter graph_kite (toAdjacencyList graph_kite) ''b''
       (st1\<lparr>pm_pq := [(Num 5, ''d''), (Num 10, ''c'')]\<rparr>) = Inr st2 \<and>
     prim_head graph_kite ''a'' st2 \<and> prim_point graph_kite ''a'' st2 \<and>
     pm_pq st2 = (Num 2, ''c'') # [(Num 5, ''d'')] \<and> pm_inMST st2 = [''a'', ''b''] \<and>
     distinct (map snd (pm_pq st2)) \<and> pq_ordered (pm_pq st2) \<and>
     ''c'' \<notin> set (pm_inMST st2) \<and>
     distinct (map snd [(Num 5, ''d''), (Num 10, ''c'')]) \<and>
     pq_priority ''c'' [(Num 5, ''d''), (Num 10, ''c'')] = Some (Num 10) \<and>
     num_less (Num 2) (Num 10) \<and>
     prim_enqueue ''c'' (Num 2) [(Num 5, ''d''), (Num 10, ''c'')] = [(Num 2, ''c''), (Num 5, ''d'')] \<and>
     pq_priority ''c'' (prim_enqueue ''c'' (Num 2) [(Num 5, ''d''), (Num 10, ''c'')]) = Some (Num 2) \<and>
     set (prim_enqueue ''c'' (Num 2) [(Num 5, ''d''), (Num 10, ''c'')]) =
       insert (Num 2, ''c'') (set [(Num 5, ''d''), (Num 10, ''c'')] - {(Num 10, ''c'')}) \<and>
     pq_ordered (prim_enqueue ''c'' (Num 2) [(Num 5, ''d''), (Num 10, ''c'')]) \<and>
     distinct (map snd (prim_enqueue ''c'' (Num 2) [(Num 5, ''d''), (Num 10, ''c'')])) \<and>
     length (prim_enqueue ''c'' (Num 2) [(Num 5, ''d''), (Num 10, ''c'')]) =
       length [(Num 5, ''d''), (Num 10, ''c'')]"
proof -
  let ?g = graph_kite
  let ?q0 = "[(Infinity, ''b''), (Infinity, ''c''), (Infinity, ''d'')]"
  let ?q1 = "[(Num 5, ''d''), (Num 10, ''c'')]"
  have q0: "pm_pq (prim_init ?g ''a'') =
              [(Num 0, ''a''), (Infinity, ''b''), (Infinity, ''c''), (Infinity, ''d'')]"
    by code_simp
  have turns:
    "case prim_iter ?g (toAdjacencyList ?g) ''a'' ((prim_init ?g ''a'')\<lparr>pm_pq := ?q0\<rparr>) of
       Inl e \<Rightarrow> False
     | Inr st1 \<Rightarrow>
         pm_pq st1 = [(Num 1, ''b''), (Num 5, ''d''), (Num 10, ''c'')] \<and> pm_inMST st1 = [''a''] \<and>
         (case prim_iter ?g (toAdjacencyList ?g) ''b'' (st1\<lparr>pm_pq := ?q1\<rparr>) of
            Inl e \<Rightarrow> False
          | Inr st2 \<Rightarrow> pm_pq st2 = [(Num 2, ''c''), (Num 5, ''d'')] \<and> pm_inMST st2 = [''a'', ''b''])"
    by code_simp
  from turns obtain st1 where
    it1: "prim_iter ?g (toAdjacencyList ?g) ''a'' ((prim_init ?g ''a'')\<lparr>pm_pq := ?q0\<rparr>) = Inr st1"
    and pq1: "pm_pq st1 = [(Num 1, ''b''), (Num 5, ''d''), (Num 10, ''c'')]"
    and in1: "pm_inMST st1 = [''a'']"
    and r: "case prim_iter ?g (toAdjacencyList ?g) ''b'' (st1\<lparr>pm_pq := ?q1\<rparr>) of
              Inl e \<Rightarrow> False
            | Inr st2 \<Rightarrow> pm_pq st2 = [(Num 2, ''c''), (Num 5, ''d'')] \<and> pm_inMST st2 = [''a'', ''b'']"
    by (cases "prim_iter ?g (toAdjacencyList ?g) ''a'' ((prim_init ?g ''a'')\<lparr>pm_pq := ?q0\<rparr>)") auto
  from r obtain st2 where
    it2: "prim_iter ?g (toAdjacencyList ?g) ''b'' (st1\<lparr>pm_pq := ?q1\<rparr>) = Inr st2"
    and pq2: "pm_pq st2 = [(Num 2, ''c''), (Num 5, ''d'')]"
    and in2: "pm_inMST st2 = [''a'', ''b'']"
    by (cases "prim_iter ?g (toAdjacencyList ?g) ''b'' (st1\<lparr>pm_pq := ?q1\<rparr>)") auto
  have h1: "prim_head ?g ''a'' st1"
    using prim_head.turn [OF prim_head.start, of ?g "''a''" "(Num 0, ''a'')" ?q0 st1]
      q0 it1 by simp
  have h2: "prim_head ?g ''a'' st2"
    using prim_head.turn [OF h1, of "(Num 1, ''b'')" ?q1 st2] pq1 it2 by simp
  have p2: "prim_point ?g ''a'' st2" using h2 by (rule prim_point.head)
  have e: "prim_enqueue ''c'' (Num 2) ?q1 = [(Num 2, ''c''), (Num 5, ''d'')]"
    by (simp add: prim_enqueue_def pq_sort_def num_le_def)
  have pr: "pq_priority ''c'' ?q1 = Some (Num 10)" by (simp add: pq_priority_def)
  from prim_queue_one_entry_per_node
         [where g = ?g and s = "''a''" and st = st2 and current = "(Num 2, ''c'')"
            and q = "[(Num 5, ''d'')]" and v = "''c''" and items = ?q1 and p = "Num 2"
            and ?p0.0 = "Num 10"]
       h2 p2 pq2 pr
  have "distinct (map snd (pm_pq st2)) \<and> pq_ordered (pm_pq st2) \<and>
        ''c'' \<notin> set (pm_inMST st2) \<and>
        pq_priority ''c'' (prim_enqueue ''c'' (Num 2) ?q1) = Some (Num 2) \<and>
        set (prim_enqueue ''c'' (Num 2) ?q1) = insert (Num 2, ''c'') (set ?q1 - {(Num 10, ''c'')}) \<and>
        pq_ordered (prim_enqueue ''c'' (Num 2) ?q1) \<and>
        distinct (map snd (prim_enqueue ''c'' (Num 2) ?q1)) \<and>
        length (prim_enqueue ''c'' (Num 2) ?q1) = length ?q1"
    by simp
  with it1 pq1 in1 it2 h2 p2 pq2 in2 pr e show ?thesis by auto
qed

section \<open>Every step is a complete snapshot, and the counters never decrease\<close>

definition step_complete :: "Graph \<Rightarrow> AlgorithmStep \<Rightarrow> bool" where
  "step_complete g s =
     (nid ` set (nodes g) \<subseteq> fst ` set (nodeStates s) \<and>
      eid ` set (edges g) \<subseteq> fst ` set (edgeStates s))"

definition metrics_le :: "AlgorithmMetrics \<Rightarrow> AlgorithmMetrics \<Rightarrow> bool" where
  "metrics_le a b =
     (nodesVisited a \<le> nodesVisited b \<and> edgesExamined a \<le> edgesExamined b \<and>
      operationsCount a \<le> operationsCount b \<and> comparisons a \<le> comparisons b)"

text \<open>
  The invariant of the live state of an executor: the two maps have an entry for every
  node and every edge, every step pushed so far is complete and carries counters that are
  at most the live ones, and the counters of the steps are in non-decreasing order.
\<close>

definition trace_inv :: "Graph \<Rightarrow> 'a trace_scheme \<Rightarrow> bool" where
  "trace_inv g st =
     (nid ` set (nodes g) \<subseteq> fst ` set (nstates st) \<and>
      eid ` set (edges g) \<subseteq> fst ` set (estates st) \<and>
      (\<forall>s \<in> set (steps st). step_complete g s \<and> metrics_le (metrics s) (mets st)) \<and>
      sorted_wrt (\<lambda>a b. metrics_le (metrics a) (metrics b)) (steps st))"

lemma metrics_le_refl [simp]: "metrics_le a a"
  by (simp add: metrics_le_def)

lemma metrics_le_trans: "metrics_le a b \<Longrightarrow> metrics_le b c \<Longrightarrow> metrics_le a c"
  by (auto simp: metrics_le_def)

lemma fst_set_update: "fst ` set (AList.update k v al) = insert k (fst ` set al)"
  using dom_update [of k v al] by (simp add: dom_map_of_conv_image_fst)

lemma trace_inv_set_node [simp]: "trace_inv g st \<Longrightarrow> trace_inv g (set_node i v st)"
  by (auto simp: trace_inv_def set_node_def fst_set_update)

lemma trace_inv_set_edge [simp]: "trace_inv g st \<Longrightarrow> trace_inv g (set_edge i v st)"
  by (auto simp: trace_inv_def set_edge_def fst_set_update)

lemma trace_inv_set_edge_opt [simp]: "trace_inv g st \<Longrightarrow> trace_inv g (set_edge_opt e v st)"
  by (cases e) (simp_all add: set_edge_opt_def)

lemma trace_inv_reject [simp]: "trace_inv g st \<Longrightarrow> trace_inv g (reject_unless_solution e st)"
  by (cases e) (simp_all add: reject_unless_solution_def)

lemma trace_inv_mets:
  assumes "trace_inv g st" and "metrics_le (mets st) m"
  shows "trace_inv g (st\<lparr>mets := m\<rparr>)"
  using assms by (auto simp: trace_inv_def intro: metrics_le_trans)

lemma trace_inv_inc [simp]:
  "trace_inv g st \<Longrightarrow> trace_inv g (inc_nodesVisited k st)"
  "trace_inv g st \<Longrightarrow> trace_inv g (inc_edgesExamined st)"
  "trace_inv g st \<Longrightarrow> trace_inv g (inc_operationsCount st)"
  "trace_inv g st \<Longrightarrow> trace_inv g (inc_comparisons st)"
  by (simp_all add: inc_nodesVisited_def inc_edgesExamined_def inc_operationsCount_def
        inc_comparisons_def trace_inv_mets metrics_le_def)

lemma trace_inv_push_step [simp]:
  "trace_inv g st \<Longrightarrow> trace_inv g (push_step d l ds opn st)"
  by (auto simp: trace_inv_def push_step_def step_complete_def sorted_wrt_append)

lemma trace_inv_foldl_set_node [simp]:
  "trace_inv g st \<Longrightarrow> trace_inv g (foldl (\<lambda>s i. set_node (f i) v s) st xs)"
  by (induction xs arbitrary: st) simp_all

lemma trace_inv_fields [simp]:
  "trace_inv g (bfs_queue_update f0 st0) = trace_inv g st0"
  "trace_inv g (bfs_visited_update f1 st1) = trace_inv g st1"
  "trace_inv g (dfs_stack_update f2 st2) = trace_inv g st2"
  "trace_inv g (dfs_visited_update f3 st3) = trace_inv g st3"
  "trace_inv g (dj_dist_update f4 st4) = trace_inv g st4"
  "trace_inv g (dj_parent_update f5 st5) = trace_inv g st5"
  "trace_inv g (dj_visited_update f6 st6) = trace_inv g st6"
  "trace_inv g (dj_pq_update f7 st7) = trace_inv g st7"
  "trace_inv g (dj_found_update f8 st8) = trace_inv g st8"
  "trace_inv g (cd_color_update f9 st9) = trace_inv g st9"
  "trace_inv g (cd_cycleFound_update f10 st10) = trace_inv g st10"
  "trace_inv g (cd_cycleEdge_update f11 st11) = trace_inv g st11"
  "trace_inv g (ts_inDegree_update f12 st12) = trace_inv g st12"
  "trace_inv g (ts_queue_update f13 st13) = trace_inv g st13"
  "trace_inv g (ts_result_update f14 st14) = trace_inv g st14"
  "trace_inv g (as_gScore_update f15 st15) = trace_inv g st15"
  "trace_inv g (as_fScore_update f16 st16) = trace_inv g st16"
  "trace_inv g (as_cameFrom_update f17 st17) = trace_inv g st17"
  "trace_inv g (as_open_update f18 st18) = trace_inv g st18"
  "trace_inv g (as_closed_update f19 st19) = trace_inv g st19"
  "trace_inv g (as_found_update f20 st20) = trace_inv g st20"
  "trace_inv g (pm_key_update f21 st21) = trace_inv g st21"
  "trace_inv g (pm_parent_update f22 st22) = trace_inv g st22"
  "trace_inv g (pm_inMST_update f23 st23) = trace_inv g st23"
  "trace_inv g (pm_pq_update f24 st24) = trace_inv g st24"
  "trace_inv g (pm_totalWeight_update f25 st25) = trace_inv g st25"
  "trace_inv g (kr_uf_update f26 st26) = trace_inv g st26"
  "trace_inv g (kr_mstEdges_update f27 st27) = trace_inv g st27"
  "trace_inv g (kr_totalWeight_update f28 st28) = trace_inv g st28"
  "trace_inv g (cc_visited_update f29 st29) = trace_inv g st29"
  "trace_inv g (cc_component_update f30 st30) = trace_inv g st30"
  "trace_inv g (cc_componentId_update f31 st31) = trace_inv g st31"
  by (simp_all add: trace_inv_def)


lemma fst_set_foldl_update:
  "fst ` set (foldl (\<lambda>m x. AList.update (f x) (h x) m) m0 xs) = fst ` set m0 \<union> f ` set xs"
  by (induction xs arbitrary: m0) (auto simp: fst_set_update)

lemma trace_inv_init:
  "nstates st = init_nstates g \<Longrightarrow> estates st = init_estates g \<Longrightarrow> steps st = [] \<Longrightarrow>
   trace_inv g st"
  by (simp add: trace_inv_def init_nstates_def init_estates_def fst_set_foldl_update)

text \<open>What the invariant gives for the steps of a state.\<close>

definition steps_ok :: "Graph \<Rightarrow> AlgorithmStep list \<Rightarrow> bool" where
  "steps_ok g ss =
     ((\<forall>s \<in> set ss. step_complete g s) \<and>
      sorted_wrt (\<lambda>a b. metrics_le (metrics a) (metrics b)) ss)"

lemma trace_inv_steps_ok: "trace_inv g st \<Longrightarrow> steps_ok g (steps st)"
  by (simp add: trace_inv_def steps_ok_def)

lemma steps_ok_Nil [simp]: "steps_ok g []"
  by (simp add: steps_ok_def)

subsection \<open>Breadth-first search\<close>

lemma bfs_neighbor_inv: "trace_inv g st \<Longrightarrow> trace_inv g (bfs_neighbor g c n st)"
  by (simp add: bfs_neighbor_def Let_def)

lemma bfs_neighbors_inv: "trace_inv g st \<Longrightarrow> trace_inv g (bfs_neighbors g c ns st)"
  by (induction ns arbitrary: st) (auto simp: bfs_neighbor_inv)

lemma bfs_iter_inv: "trace_inv g st \<Longrightarrow> trace_inv g (bfs_iter g al c st)"
  by (simp add: bfs_iter_def Let_def bfs_neighbors_inv)

lemma bfs_loop_inv: "trace_inv g st \<Longrightarrow> trace_inv g (bfs_loop g al st)"
proof (induction g al st rule: bfs_loop.induct)
  case (1 g al st)
  show ?case
  proof (cases "bfs_queue st")
    case Nil
    then show ?thesis using "1.prems" by (simp add: bfs_loop.simps)
  next
    case (Cons c q)
    have "trace_inv g (bfs_iter g al c (st\<lparr>bfs_queue := q\<rparr>))"
      using "1.prems" by (simp add: bfs_iter_inv)
    then show ?thesis using "1.IH" [OF Cons] Cons by (simp add: bfs_loop.simps [of g al st])
  qed
qed

lemma executeBFS_ok: "steps_ok g (executeBFS g params)"
proof -
  have "trace_inv g (bfs_run g s)" for s
    by (simp add: bfs_run_def Let_def bfs_loop_inv trace_inv_init)
  note h = this
  show ?thesis
    by (simp add: executeBFS_def Let_def trace_inv_steps_ok h)
qed

subsection \<open>Depth-first search\<close>

lemma dfs_neighbor_inv: "trace_inv g st \<Longrightarrow> trace_inv g (dfs_neighbor g c n st)"
  by (simp add: dfs_neighbor_def Let_def)

lemma dfs_neighbors_inv: "trace_inv g st \<Longrightarrow> trace_inv g (dfs_neighbors g c ns st)"
  by (induction ns arbitrary: st) (auto simp: dfs_neighbor_inv)

lemma dfs_iter_inv: "trace_inv g st \<Longrightarrow> trace_inv g (dfs_iter g al c st)"
  by (simp add: dfs_iter_def Let_def dfs_neighbors_inv)

lemma dfs_loop_inv: "trace_inv g st \<Longrightarrow> trace_inv g (dfs_loop g al st)"
proof (induction g al st rule: dfs_loop.induct)
  case (1 g al st)
  show ?case
  proof (cases "dfs_stack st")
    case Nil
    then show ?thesis using "1.prems" by (simp add: dfs_loop.simps)
  next
    case (Cons c q)
    have "trace_inv g (dfs_iter g al c (st\<lparr>dfs_stack := q\<rparr>))"
      using "1.prems" by (simp add: dfs_iter_inv)
    then show ?thesis using "1.IH" [OF Cons] Cons by (simp add: dfs_loop.simps [of g al st])
  qed
qed

lemma executeDFS_ok: "steps_ok g (executeDFS g params)"
proof -
  have "trace_inv g (dfs_run g s)" for s
    by (simp add: dfs_run_def Let_def dfs_loop_inv trace_inv_init)
  note h = this
  show ?thesis
    by (simp add: executeDFS_def Let_def trace_inv_steps_ok h)
qed

subsection \<open>Topological sort\<close>

lemma ts_edge_inv: "ts_edge g e st = Inr st' \<Longrightarrow> trace_inv g st \<Longrightarrow> trace_inv g st'"
  by (auto simp: ts_edge_def Let_def split: option.splits if_splits)

lemma ts_edges_inv: "ts_edges g es st = Inr st' \<Longrightarrow> trace_inv g st \<Longrightarrow> trace_inv g st'"
proof (induction es arbitrary: st)
  case Nil
  then show ?case by simp
next
  case (Cons e es)
  then obtain st1 where s1: "ts_edge g e st = Inr st1" and r: "ts_edges g es st1 = Inr st'"
    by (cases "ts_edge g e st") simp_all
  show ?case using Cons.IH [OF r] ts_edge_inv [OF s1 Cons.prems(2)] .
qed

lemma ts_iter_inv:
  assumes "ts_iter g c st = Inr st'" and "trace_inv g st"
  shows "trace_inv g st'"
proof -
  from assms(1) obtain cn where cn: "getNode g c = Some cn"
    by (cases "getNode g c") (simp_all add: ts_iter_def)
  let ?st3 = "push_step [T ''Dequeue '', L (Some (label cn)), T ''. Add to result.'']
                 5 (ts_views g (set_node c CURRENT (inc_operationsCount (inc_nodesVisited 1 (st\<lparr>ts_result := ts_result st @ [c]\<rparr>)))))
                 [T ''Process '', L (Some (label cn))]
                 (set_node c CURRENT (inc_operationsCount (inc_nodesVisited 1 (st\<lparr>ts_result := ts_result st @ [c]\<rparr>))))"
  from assms(1) cn obtain st4 where e: "ts_edges g (filter (\<lambda>e. source e = c) (edges g)) ?st3 = Inr st4"
    and s: "st' = set_node c IN_SOLUTION st4"
    by (cases "ts_edges g (filter (\<lambda>e. source e = c) (edges g)) ?st3")
       (simp_all add: ts_iter_def Let_def)
  have "trace_inv g ?st3" using assms(2) by simp
  then show ?thesis using ts_edges_inv [OF e] s by simp
qed

lemma ts_loop_inv: "ts_loop g st = Inr st' \<Longrightarrow> trace_inv g st \<Longrightarrow> trace_inv g st'"
proof (induction g st rule: ts_loop.induct)
  case (1 g st)
  show ?case
  proof (cases "ts_queue st")
    case Nil
    then show ?thesis using "1.prems" by (simp add: ts_loop.simps)
  next
    case (Cons c q)
    then obtain st1 where it: "ts_iter g c (st\<lparr>ts_queue := q\<rparr>) = Inr st1"
      and r: "ts_loop g st1 = Inr st'"
      using "1.prems"(1)
      by (cases "ts_iter g c (st\<lparr>ts_queue := q\<rparr>)") (simp_all add: ts_loop.simps [of g st])
    have "trace_inv g st1" using ts_iter_inv [OF it] "1.prems"(2) by simp
    then show ?thesis using "1.IH" [OF Cons it r] by simp
  qed
qed

lemma ts_init_inv: "trace_inv g (ts_init g)"
proof -
  have "trace_inv g (foldl (\<lambda>s n. if P s n then set_node (nid n) VISITING (s\<lparr>ts_queue := ts_queue s @ [nid n]\<rparr>)
                               else s) st ns)"
    if "trace_inv g st" for P and st :: ts_state and ns
    using that by (induction ns arbitrary: st) simp_all
  note h = this
  show ?thesis
    by (simp add: ts_init_def Let_def trace_inv_init h)
qed

lemma executeTopologicalSort_ok:
  "executeTopologicalSort g params = Inr ss \<Longrightarrow> steps_ok g ss"
  using ts_loop_inv [OF _ ts_init_inv]
  by (auto simp: executeTopologicalSort_def ts_finish_def trace_inv_steps_ok
           split: if_splits sum.splits)

subsection \<open>Prim\<close>

lemma prim_neighbor_trace: "prim_neighbor g cn c nw st = Inr st' \<Longrightarrow> trace_inv g st \<Longrightarrow> trace_inv g st'"
  by (auto simp: prim_neighbor_def Let_def split: option.splits if_splits)

lemma prim_neighbors_trace:
  "prim_neighbors g cn c ns st = Inr st' \<Longrightarrow> trace_inv g st \<Longrightarrow> trace_inv g st'"
proof (induction ns arbitrary: st)
  case Nil
  then show ?case by simp
next
  case (Cons nw ns)
  then obtain st1 where s1: "prim_neighbor g cn c nw st = Inr st1"
    and r: "prim_neighbors g cn c ns st1 = Inr st'"
    by (cases "prim_neighbor g cn c nw st") simp_all
  show ?case using Cons.IH [OF r] prim_neighbor_trace [OF s1 Cons.prems(2)] .
qed

lemma prim_add_trace: "trace_inv g st \<Longrightarrow> trace_inv g (prim_add g cn c st)"
  by (simp add: prim_add_def Let_def split: option.splits)

lemma prim_iter_trace:
  "prim_iter g al c st = Inr st' \<Longrightarrow> trace_inv g st \<Longrightarrow> trace_inv g st'"
  using prim_neighbors_trace prim_add_trace
  by (auto simp: prim_iter_def Let_def split: if_splits option.splits)

lemma prim_loop_trace: "prim_loop g al st = Inr st' \<Longrightarrow> trace_inv g st \<Longrightarrow> trace_inv g st'"
proof (induction g al st rule: prim_loop.induct)
  case (1 g al st)
  show ?case
  proof (cases "pm_pq st")
    case Nil
    then show ?thesis using "1.prems" by (simp add: prim_loop.simps)
  next
    case (Cons c q)
    then obtain st1 where it: "prim_iter g al (snd c) (st\<lparr>pm_pq := q\<rparr>) = Inr st1"
      and r: "prim_loop g al st1 = Inr st'"
      using "1.prems"(1)
      by (cases "prim_iter g al (snd c) (st\<lparr>pm_pq := q\<rparr>)") (simp_all add: prim_loop.simps [of g al st])
    have "trace_inv g st1" using prim_iter_trace [OF it] "1.prems"(2) by simp
    then show ?thesis using "1.IH" [OF Cons it r] by simp
  qed
qed

lemma executePrim_ok: "executePrim g params = Inr ss \<Longrightarrow> steps_ok g ss"
proof -
  have "trace_inv g (prim_init g s)" for s
    by (simp add: prim_init_def Let_def trace_inv_init)
  note h = this
  show "executePrim g params = Inr ss \<Longrightarrow> steps_ok g ss"
    using prim_loop_trace [OF _ h]
    by (auto simp: executePrim_def prim_finish_def trace_inv_steps_ok split: if_splits sum.splits)
qed

subsection \<open>Cycle detection\<close>

lemma cd_parts_trace [simp]:
  "trace_inv g st \<Longrightarrow> trace_inv g (cd_enter g node i st)"
  "trace_inv g st \<Longrightarrow> trace_inv g (cd_check g i nn n st)"
  "trace_inv g st \<Longrightarrow> trace_inv g (cd_back_edge g node i nn n st)"
  "trace_inv g st \<Longrightarrow> trace_inv g (cd_leave g node i st)"
  by (simp_all add: cd_enter_def cd_check_def cd_back_edge_def cd_leave_def Let_def)

lemma cd_dfs_trace:
  "cd_dfs g al i st = Inr (b, st') \<Longrightarrow> trace_inv g st \<Longrightarrow> trace_inv g st'"
  "cd_neighbors g al node i ns st = Inr (b, st') \<Longrightarrow> trace_inv g st \<Longrightarrow> trace_inv g st'"
proof (induction g al i st and g al node i ns st arbitrary: b st' and b st' rule: cd_dfs_cd_neighbors.induct)
  case (1 g al nodeId st)
  from "1.prems"(1) obtain node where node: "getNode g nodeId = Some node"
    and r: "cd_neighbors g al node nodeId (neighbors_of al nodeId) (cd_enter g node nodeId st) = Inr (b, st')"
    by (cases "getNode g nodeId") (simp_all add: cd_dfs.simps)
  from "1.IH" [OF node r] "1.prems"(2) show ?case by simp
next
  case (2 g al node nodeId st)
  then show ?case by (auto simp: cd_neighbors.simps)
next
  case (3 g al node nodeId nw rest st)
  note ps = cd_neighbors.simps(2) [of g al node nodeId nw rest st]
  have "getNode g (fst nw) \<noteq> None"
  proof
    assume "getNode g (fst nw) = None"
    then have "cd_neighbors g al node nodeId (nw # rest) st = Inl TypeError"
      by (subst ps) (simp only: Let_def option.case)
    with "3.prems" show False by simp
  qed
  then obtain nn where nn: "getNode g (fst nw) = Some nn" by blast
  let ?edge = "getEdgeBetween g nodeId (fst nw)"
  let ?st1 = "cd_check g nodeId nn (fst nw) st"
  let ?nc = "map_of (cd_color ?st1) (fst nw)"
  have t1: "trace_inv g ?st1" using "3.prems"(2) by simp
  show ?case
  proof (cases "?nc = Some GRAY")
    case True
    have "cd_neighbors g al node nodeId (nw # rest) st =
          Inr (True, cd_back_edge g node nodeId nn (fst nw) ?st1)"
      using True by (subst ps) (simp add: Let_def nn)
    then have "st' = cd_back_edge g node nodeId nn (fst nw) ?st1"
      using "3.prems" by simp
    then show ?thesis using t1 by simp
  next
    case ng: False
    show ?thesis
    proof (cases "?nc = Some WHITE")
      case True
      let ?st1' = "set_edge_opt ?edge E_IN_SOLUTION ?st1"
      have t1': "trace_inv g ?st1'" using t1 by simp
      have "cd_neighbors g al node nodeId (nw # rest) st =
               (case cd_dfs g al (fst nw) ?st1' of Inl e \<Rightarrow> Inl e
                 | Inr (found, st2) \<Rightarrow> if found then Inr (True, st2)
                     else cd_neighbors g al node nodeId rest st2)"
        using True ng by (subst ps) (simp add: Let_def nn)
      then have eq: "(case cd_dfs g al (fst nw) ?st1' of Inl e \<Rightarrow> Inl e
                 | Inr (found, st2) \<Rightarrow> if found then Inr (True, st2)
                     else cd_neighbors g al node nodeId rest st2) = Inr (b, st')"
        using "3.prems" by simp
      then obtain found st2 where r: "cd_dfs g al (fst nw) ?st1' = Inr (found, st2)"
        by (cases "cd_dfs g al (fst nw) ?st1'") auto
      have s2: "trace_inv g st2"
        using "3.IH"(1) [OF refl nn refl refl refl ng True r t1'] .
      show ?thesis
      proof (cases found)
        case True
        then show ?thesis using eq r s2 by simp
      next
        case False
        then have "cd_neighbors g al node nodeId rest st2 = Inr (b, st')"
          using eq r by simp
        then show ?thesis
          using "3.IH"(2) [OF refl nn refl refl refl ng True r refl False _ s2] by simp
      qed
    next
      case False
      let ?st1' = "set_edge_opt ?edge REJECTED ?st1"
      have "cd_neighbors g al node nodeId (nw # rest) st = cd_neighbors g al node nodeId rest ?st1'"
        using False ng by (subst ps) (simp add: Let_def nn)
      then have "cd_neighbors g al node nodeId rest ?st1' = Inr (b, st')"
        using "3.prems" by simp
      then show ?thesis
        using "3.IH"(3) [OF refl nn refl refl refl ng False] t1 by simp
    qed
  qed
qed

lemma cd_roots_trace: "cd_roots g al ns st = Inr st' \<Longrightarrow> trace_inv g st \<Longrightarrow> trace_inv g st'"
proof (induction ns arbitrary: st)
  case Nil
  then show ?case by simp
next
  case (Cons node rest)
  show ?case
  proof (cases "map_of (cd_color st) (nid node) = Some WHITE")
    case True
    let ?st1 = "push_step [T ''Start DFS from unvisited node '', L (Some (label node)), T ''.''] 3
                     (cd_views g st) [T ''Start from '', L (Some (label node))] st"
    from Cons.prems(1) True obtain found st2 where r: "cd_dfs g al (nid node) ?st1 = Inr (found, st2)"
      and c: "if found then st' = st2 else cd_roots g al rest st2 = Inr st'"
      by (cases "cd_dfs g al (nid node) ?st1") (auto simp: Let_def split: if_splits)
    have "trace_inv g st2" using cd_dfs_trace(1) [OF r] Cons.prems(2) by simp
    then show ?thesis using c Cons.IH by (cases found) auto
  next
    case False
    then show ?thesis using Cons by simp
  qed
qed

lemma executeCycleDetection_ok:
  assumes "executeCycleDetection g params = Inr ss"
  shows "steps_ok g ss"
proof -
  have i: "trace_inv g (cd_init g)"
    by (simp add: cd_init_def Let_def trace_inv_init)
  from assms obtain st where r: "cd_roots g (toAdjacencyList g) (nodes g) (cd_init g) = Inr st"
    and ss: "ss = cd_finish g st"
    by (cases "cd_roots g (toAdjacencyList g) (nodes g) (cd_init g)")
       (simp_all add: executeCycleDetection_def)
  have "trace_inv g st" using cd_roots_trace [OF r i] .
  then show ?thesis
    by (simp add: ss cd_finish_def Let_def trace_inv_steps_ok)
qed

subsection \<open>Connected components\<close>

lemma cc_enter_trace [simp]: "trace_inv g st \<Longrightarrow> trace_inv g (cc_enter g node i k st)"
  by (simp add: cc_enter_def Let_def)

lemma cc_dfs_trace:
  "cc_dfs g al i k st = Inr st' \<Longrightarrow> trace_inv g st \<Longrightarrow> trace_inv g st'"
  "cc_neighbors g al i k ns st = Inr st' \<Longrightarrow> trace_inv g st \<Longrightarrow> trace_inv g st'"
proof (induction g al i k st and g al i k ns st arbitrary: st' and st' rule: cc_dfs_cc_neighbors.induct)
  case (1 g al nodeId compId st)
  from "1.prems"(1) obtain node where node: "getNode g nodeId = Some node"
    and r: "cc_neighbors g al nodeId compId (neighbors_of al nodeId) (cc_enter g node nodeId compId st) = Inr st'"
    by (cases "getNode g nodeId") (simp_all add: cc_dfs.simps)
  from "1.IH" [OF node r] "1.prems"(2) show ?case by simp
next
  case (2 g al nodeId compId st)
  then show ?case by (simp add: cc_neighbors.simps)
next
  case (3 g al nodeId compId nw rest st)
  note ps = cc_neighbors.simps(2) [of g al nodeId compId nw rest st]
  show ?case
  proof (cases "fst nw \<notin> set (cc_visited st)")
    case True
    let ?st1 = "set_edge_opt (getEdgeBetween g nodeId (fst nw)) E_IN_SOLUTION (inc_edgesExamined st)"
    have eq: "(case cc_dfs g al (fst nw) compId ?st1 of Inl e \<Rightarrow> Inl e
               | Inr st2 \<Rightarrow> cc_neighbors g al nodeId compId rest st2) = Inr st'"
      using "3.prems"(1) True by (subst (asm) ps) simp
    then obtain st2 where r: "cc_dfs g al (fst nw) compId ?st1 = Inr st2"
      by (cases "cc_dfs g al (fst nw) compId ?st1") auto
    have a: "trace_inv g st2"
      using "3.IH"(1) [OF True r] "3.prems"(2) by simp
    have "cc_neighbors g al nodeId compId rest st2 = Inr st'" using eq r by simp
    then show ?thesis using "3.IH"(2) [OF True r _ a] by simp
  next
    case False
    then have "cc_neighbors g al nodeId compId rest (inc_edgesExamined st) = Inr st'"
      using "3.prems"(1) by (subst (asm) ps) simp
    then show ?thesis using "3.IH"(3) [OF False] "3.prems"(2) by simp
  qed
qed

lemma cc_roots_trace: "cc_roots g al ns st = Inr st' \<Longrightarrow> trace_inv g st \<Longrightarrow> trace_inv g st'"
proof (induction ns arbitrary: st)
  case Nil
  then show ?case by simp
next
  case (Cons node rest)
  show ?case
  proof (cases "nid node \<notin> set (cc_visited st)")
    case True
    let ?st1 = "push_step [T ''Start new component '', K (cc_componentId st + 1), T '' from '',
                              L (Some (label node)), T ''.''] 4
                             [(''componentCount'', Count (cc_componentId st + 1))]
                             [T ''New component from '', L (Some (label node))] st"
    from Cons.prems(1) True obtain st2 where r: "cc_dfs g al (nid node) (cc_componentId ?st1) ?st1 = Inr st2"
      and c: "cc_roots g al rest (st2\<lparr>cc_componentId := cc_componentId st2 + 1\<rparr>) = Inr st'"
      by (cases "cc_dfs g al (nid node) (cc_componentId ?st1) ?st1") (auto simp: Let_def)
    have "trace_inv g st2" using cc_dfs_trace(1) [OF r] Cons.prems(2) by simp
    then show ?thesis using Cons.IH [OF c] by simp
  next
    case False
    then show ?thesis using Cons by simp
  qed
qed

lemma executeConnectedComponents_ok:
  assumes "executeConnectedComponents g params = Inr ss"
  shows "steps_ok g ss"
proof -
  have i: "trace_inv g (cc_init g)"
    by (simp add: cc_init_def Let_def trace_inv_init)
  from assms obtain st where r: "cc_roots g (toAdjacencyList g) (nodes g) (cc_init g) = Inr st"
    and ss: "ss = cc_finish g st"
    by (cases "cc_roots g (toAdjacencyList g) (nodes g) (cc_init g)")
       (simp_all add: executeConnectedComponents_def)
  have "trace_inv g st" using cc_roots_trace [OF r i] .
  then show ?thesis
    by (simp add: ss cc_finish_def trace_inv_steps_ok)
qed

subsection \<open>Dijkstra\<close>

text \<open>
  The walk along parent pointers ends when every pointer leads to a node of smaller rank.
\<close>

lemma chain_walk_total:
  assumes "\<And>c p. nxt c = Some p \<Longrightarrow> (rk p :: nat) < rk c"
  shows "\<exists>pth. chain_walk nxt cur acc = Some pth"
proof (cases cur)
  case None
  then show ?thesis by (simp add: chain_walk.simps)
next
  case (Some c0)
  have "\<exists>pth. chain_walk nxt (Some c) acc = Some pth" for c acc
  proof (induction "rk c" arbitrary: c acc rule: less_induct)
    case less
    show ?case
    proof (cases "c = []")
      case True
      then show ?thesis by (simp add: chain_walk.simps)
    next
      case ne: False
      show ?thesis
      proof (cases "nxt c")
        case None
        then show ?thesis using ne
          by (subst chain_walk.simps) (simp add: chain_walk.simps [of nxt None])
      next
        case (Some p)
        then have "rk p < rk c" using assms by simp
        from less [OF this, of "c # acc"] show ?thesis using ne Some
          by (subst chain_walk.simps) simp
      qed
    qed
  qed
  then show ?thesis using Some by simp
qed

definition dj_ranked :: "dj_state \<Rightarrow> bool" where
  "dj_ranked st =
     (\<exists>rk :: string \<Rightarrow> nat. \<forall>c p. parent_of (dj_parent st) c = Some p \<longrightarrow>
        p \<in> set (dj_visited st) \<and> rk p < rk c)"

lemma parent_of_update:
  "parent_of (AList.update k v m) c = (if c = k then v else parent_of m c)"
  by (simp add: parent_of_def update_conv')

lemma dj_neighbor_parent:
  "dj_parent (dj_neighbor g c nw st) = dj_parent st \<or>
   (fst nw \<notin> set (dj_visited st) \<and>
    dj_parent (dj_neighbor g c nw st) = AList.update (fst nw) (Some c) (dj_parent st))"
  by (simp add: dj_neighbor_def Let_def)

lemma dj_neighbor_ranked:
  assumes "dj_ranked st" and "c \<in> set (dj_visited st)"
  shows "dj_ranked (dj_neighbor g c nw st)"
proof -
  from assms(1) obtain rk :: "string \<Rightarrow> nat" where
    rk: "\<And>x p. parent_of (dj_parent st) x = Some p \<Longrightarrow> p \<in> set (dj_visited st) \<and> rk p < rk x"
    unfolding dj_ranked_def by blast
  from dj_neighbor_parent [of g c nw st] show ?thesis
  proof
    assume "dj_parent (dj_neighbor g c nw st) = dj_parent st"
    then show ?thesis using assms(1) by (simp add: dj_ranked_def)
  next
    assume a: "fst nw \<notin> set (dj_visited st) \<and>
      dj_parent (dj_neighbor g c nw st) = AList.update (fst nw) (Some c) (dj_parent st)"
    let ?rk = "rk (fst nw := rk c + 1)"
    have "\<forall>x p. parent_of (dj_parent (dj_neighbor g c nw st)) x = Some p \<longrightarrow>
            p \<in> set (dj_visited (dj_neighbor g c nw st)) \<and> ?rk p < ?rk x"
    proof (intro allI impI)
      fix x p
      assume p: "parent_of (dj_parent (dj_neighbor g c nw st)) x = Some p"
      show "p \<in> set (dj_visited (dj_neighbor g c nw st)) \<and> ?rk p < ?rk x"
      proof (cases "x = fst nw")
        case True
        then have "p = c" using p a by (simp add: parent_of_update)
        then show ?thesis using True a assms(2) by auto
      next
        case False
        then have "parent_of (dj_parent st) x = Some p" using p a by (simp add: parent_of_update)
        from rk [OF this] show ?thesis using False a by auto
      qed
    qed
    then show ?thesis unfolding dj_ranked_def by blast
  qed
qed

lemma dj_neighbors_ranked:
  "dj_ranked st \<Longrightarrow> c \<in> set (dj_visited st) \<Longrightarrow>
   dj_ranked (foldl (\<lambda>s nw. dj_neighbor g c nw s) st ns)"
  by (induction ns arbitrary: st) (simp_all add: dj_neighbor_ranked)

lemma dj_ranked_cong:
  "dj_parent st' = dj_parent st \<Longrightarrow> set (dj_visited st) \<subseteq> set (dj_visited st') \<Longrightarrow>
   dj_ranked st \<Longrightarrow> dj_ranked st'"
  unfolding dj_ranked_def by (metis subsetD)

lemma dj_neighbor_trace: "trace_inv g st \<Longrightarrow> trace_inv g (dj_neighbor g c nw st)"
  by (simp add: dj_neighbor_def Let_def)

lemma dj_neighbors_trace:
  "trace_inv g st \<Longrightarrow> trace_inv g (foldl (\<lambda>s nw. dj_neighbor g c nw s) st ns)"
  by (induction ns arbitrary: st) (simp_all add: dj_neighbor_trace)

lemma dj_extract_trace [simp]: "trace_inv g st \<Longrightarrow> trace_inv g (dj_extract g cur st)"
  by (simp add: dj_extract_def Let_def)

lemma dj_extract_parent [simp]: "dj_parent (dj_extract g cur st) = dj_parent st"
  by (simp add: dj_extract_def Let_def)

lemma mark_path_trace [simp]: "trace_inv g st \<Longrightarrow> trace_inv g (mark_path g pv xs st)"
  by (induction g pv xs st rule: mark_path.induct) (simp_all add: Let_def split: option.splits)

lemma dj_reach_target_total:
  assumes "dj_ranked st" and "trace_inv g st"
  shows "\<exists>st'. dj_reach_target g c d st = Some st' \<and> trace_inv g st'"
proof -
  from assms(1) obtain rk :: "string \<Rightarrow> nat" where
    rk: "\<And>x p. parent_of (dj_parent st) x = Some p \<Longrightarrow> rk p < rk x"
    unfolding dj_ranked_def by blast
  obtain pth where "chain_walk (parent_of (dj_parent st)) (Some c) [] = Some pth"
    using chain_walk_total [of "parent_of (dj_parent st)" rk "Some c" "[]"] rk by blast
  then show ?thesis using assms(2)
    by (simp add: dj_reach_target_def Let_def)
qed

lemma dj_iter_total:
  assumes "dj_ranked st" and "trace_inv g st"
  shows "\<exists>st'. dj_iter g al e cur st = Some st' \<and> dj_ranked st' \<and> trace_inv g st'"
proof (cases "dj_stale cur st")
  case True
  then have "dj_iter g al e cur st = Some (inc_comparisons (inc_operationsCount st))"
    by (rule dj_iter_stale)
  moreover have "dj_ranked (inc_comparisons (inc_operationsCount st))"
    using assms(1) by (rule dj_ranked_cong [rotated 2]) simp_all
  ultimately show ?thesis using assms(2) by simp
next
  case False
  let ?st4 = "dj_extract g cur (inc_comparisons (inc_operationsCount st))"
  have r4: "dj_ranked ?st4"
    using assms(1) by (rule dj_ranked_cong [rotated 2]) (auto simp: set_add_def)
  have t4: "trace_inv g ?st4" using assms(2) by simp
  have v4: "snd cur \<in> set (dj_visited ?st4)" by (simp add: set_add_def)
  show ?thesis
  proof (cases "\<not> falsy_id e \<and> Some (snd cur) = e")
    case True
    from dj_reach_target_total [OF r4 t4, of "snd cur" "fst cur"] obtain st'
      where st': "dj_reach_target g (snd cur) (fst cur) ?st4 = Some st'" "trace_inv g st'"
      by blast
    have "dj_ranked st'"
      using r4 by (rule dj_ranked_cong [rotated 2])
                  (use st'(1) in \<open>auto simp: dj_reach_target_def Let_def split: option.splits\<close>)
    then show ?thesis using st' True False by (simp add: dj_iter_fresh Let_def)
  next
    case nt: False
    let ?st5 = "foldl (\<lambda>s nw. dj_neighbor g (snd cur) nw s) ?st4 (neighbors_of al (snd cur))"
    have "dj_iter g al e cur st = Some (set_node (snd cur) VISITED ?st5)"
      using nt False by (auto simp: dj_iter_fresh Let_def)
    moreover have "dj_ranked ?st5" using dj_neighbors_ranked [OF r4 v4] .
    then have "dj_ranked (set_node (snd cur) VISITED ?st5)"
      by (rule dj_ranked_cong [rotated 2]) simp_all
    moreover have "trace_inv g (set_node (snd cur) VISITED ?st5)"
      using dj_neighbors_trace [OF t4] by simp
    ultimately show ?thesis by simp
  qed
qed

lemma dj_loop_total:
  "dj_ranked st \<Longrightarrow> trace_inv g st \<Longrightarrow> \<exists>st'. dj_loop g al e st = Some st' \<and> trace_inv g st'"
proof (induction g al e st rule: dj_loop.induct)
  case (1 g al e st)
  show ?case
  proof (cases "dj_found st")
    case True
    then show ?thesis using "1.prems" by (simp add: dj_loop.simps)
  next
    case nf: False
    show ?thesis
    proof (cases "dj_pq st")
      case Nil
      then show ?thesis using "1.prems" nf by (simp add: dj_loop.simps)
    next
      case (Cons cur q)
      have "dj_ranked (st\<lparr>dj_pq := q\<rparr>)"
        using "1.prems"(1) by (rule dj_ranked_cong [rotated 2]) simp_all
      moreover have "trace_inv g (st\<lparr>dj_pq := q\<rparr>)" using "1.prems"(2) by simp
      ultimately obtain st1 where it: "dj_iter g al e cur (st\<lparr>dj_pq := q\<rparr>) = Some st1"
        and r1: "dj_ranked st1" and t1: "trace_inv g st1"
        using dj_iter_total by blast
      from "1.IH" [OF nf Cons it r1 t1] show ?thesis
        using nf Cons it by (simp add: dj_loop.simps [of g al e st])
    qed
  qed
qed

lemma parent_of_init: "parent_of (foldl (\<lambda>m n. AList.update (f n) None m) [] ns) c = None"
proof -
  have "parent_of (foldl (\<lambda>m n. AList.update (f n) None m) m0 ns) c = None"
    if "parent_of m0 c = None" for m0
    using that by (induction ns arbitrary: m0) (simp_all add: parent_of_update)
  then show ?thesis by (simp add: parent_of_def)
qed

lemma dj_init_inv: "dj_ranked (dj_init g s)" "trace_inv g (dj_init g s)"
  by (simp_all add: dj_init_def Let_def dj_ranked_def parent_of_init trace_inv_init)

lemma executeDijkstra_ok: "\<exists>ss. executeDijkstra g params = Some ss \<and> steps_ok g ss"
proof (cases "falsy_id (startNodeId params) \<or>
              find (\<lambda>n. nid n = the (startNodeId params)) (nodes g) = None")
  case True
  then show ?thesis by (simp add: executeDijkstra_def)
next
  case False
  let ?s = "the (startNodeId params)"
  obtain st where l: "dj_loop g (toAdjacencyList g) (endNodeId params) (dj_init g ?s) = Some st"
    and t: "trace_inv g st"
    using dj_loop_total [OF dj_init_inv] by blast
  have "trace_inv g (foldl (\<lambda>s n. if P s n then set_node (nid n) IN_SOLUTION s else s) st0 ns)"
    if "trace_inv g st0" for P and st0 :: dj_state and ns
    using that by (induction ns arbitrary: st0) simp_all
  note h = this
  have "steps_ok g (dj_finish g ?s (endNodeId params) st)"
    using t by (simp add: dj_finish_def Let_def trace_inv_steps_ok h)
  then show ?thesis using False l by (simp add: executeDijkstra_def Let_def)
qed

subsection \<open>A*\<close>

definition as_ranked :: "as_state \<Rightarrow> bool" where
  "as_ranked st =
     (\<exists>rk :: string \<Rightarrow> nat. \<forall>c p. map_of (as_cameFrom st) c = Some p \<longrightarrow>
        p \<in> set (as_closed st) \<and> rk p < rk c)"

lemma as_ranked_cong:
  "as_cameFrom st' = as_cameFrom st \<Longrightarrow> set (as_closed st) \<subseteq> set (as_closed st') \<Longrightarrow>
   as_ranked st \<Longrightarrow> as_ranked st'"
  unfolding as_ranked_def by (metis subsetD)

lemma as_neighbor_cameFrom:
  assumes "as_neighbor g en hk c nw st = Inr st'"
  shows "as_closed st' = as_closed st"
    and "as_cameFrom st' = as_cameFrom st \<or>
         (fst nw \<notin> set (as_closed st) \<and> as_cameFrom st' = AList.update (fst nw) c (as_cameFrom st))"
proof -
  show "as_closed st' = as_closed st"
    using assms by (auto simp: as_neighbor_def Let_def split: if_splits option.splits)
  show "as_cameFrom st' = as_cameFrom st \<or>
         (fst nw \<notin> set (as_closed st) \<and> as_cameFrom st' = AList.update (fst nw) c (as_cameFrom st))"
    using assms by (auto simp: as_neighbor_def Let_def split: if_splits option.splits)
qed

lemma as_neighbor_ranked:
  assumes n: "as_neighbor g en hk c nw st = Inr st'" and "as_ranked st" and "c \<in> set (as_closed st)"
  shows "as_ranked st'"
proof -
  from assms(2) obtain rk :: "string \<Rightarrow> nat" where
    rk: "\<And>x p. map_of (as_cameFrom st) x = Some p \<Longrightarrow> p \<in> set (as_closed st) \<and> rk p < rk x"
    unfolding as_ranked_def by blast
  note cl = as_neighbor_cameFrom(1) [OF n]
  from as_neighbor_cameFrom(2) [OF n] show ?thesis
  proof
    assume "as_cameFrom st' = as_cameFrom st"
    then show ?thesis using assms(2) cl by (simp add: as_ranked_def)
  next
    assume a: "fst nw \<notin> set (as_closed st) \<and> as_cameFrom st' = AList.update (fst nw) c (as_cameFrom st)"
    let ?rk = "rk (fst nw := rk c + 1)"
    have "\<forall>x p. map_of (as_cameFrom st') x = Some p \<longrightarrow> p \<in> set (as_closed st') \<and> ?rk p < ?rk x"
    proof (intro allI impI)
      fix x p
      assume p: "map_of (as_cameFrom st') x = Some p"
      show "p \<in> set (as_closed st') \<and> ?rk p < ?rk x"
      proof (cases "x = fst nw")
        case True
        then have "p = c" using p a by (simp add: update_conv')
        then show ?thesis using True a assms(3) cl by auto
      next
        case False
        then have "map_of (as_cameFrom st) x = Some p" using p a by (simp add: update_conv')
        from rk [OF this] show ?thesis using False a cl by auto
      qed
    qed
    then show ?thesis unfolding as_ranked_def by blast
  qed
qed

lemma as_neighbor_trace:
  "as_neighbor g en hk c nw st = Inr st' \<Longrightarrow> trace_inv g st \<Longrightarrow> trace_inv g st'"
  by (auto simp: as_neighbor_def Let_def split: if_splits option.splits)

lemma as_neighbors_inv:
  "as_neighbors g en hk c ns st = Inr st' \<Longrightarrow> as_ranked st \<Longrightarrow> c \<in> set (as_closed st) \<Longrightarrow>
   trace_inv g st \<Longrightarrow> as_ranked st' \<and> trace_inv g st'"
proof (induction ns arbitrary: st)
  case Nil
  then show ?case by simp
next
  case (Cons nw ns)
  then obtain st1 where s1: "as_neighbor g en hk c nw st = Inr st1"
    and r: "as_neighbors g en hk c ns st1 = Inr st'"
    by (cases "as_neighbor g en hk c nw st") simp_all
  have "as_ranked st1" using as_neighbor_ranked [OF s1 Cons.prems(2,3)] .
  moreover have "c \<in> set (as_closed st1)"
    using as_neighbor_cameFrom(1) [OF s1] Cons.prems(3) by simp
  moreover have "trace_inv g st1" using as_neighbor_trace [OF s1 Cons.prems(4)] .
  ultimately show ?case using Cons.IH [OF r] by simp
qed

lemma mark_path_edges_trace [simp]:
  "trace_inv g st \<Longrightarrow> trace_inv g (mark_path_edges g pth st)"
  by (induction g pth st rule: mark_path_edges.induct) simp_all

lemma as_cameFrom_marks [simp]:
  "as_cameFrom (mark_path_edges g pth st) = as_cameFrom st"
  "as_cameFrom (foldl (\<lambda>s i. set_node i v s) st xs) = as_cameFrom st"
proof -
  show "as_cameFrom (mark_path_edges g pth st) = as_cameFrom st"
    by (induction g pth st rule: mark_path_edges.induct) simp_all
  show "as_cameFrom (foldl (\<lambda>s i. set_node i v s) st xs) = as_cameFrom st"
    by (induction xs arbitrary: st) simp_all
qed

lemma as_reach_goal_total:
  assumes "as_ranked st" and "trace_inv g st"
  shows "\<exists>st'. as_reach_goal g e st = Some st' \<and> trace_inv g st' \<and> as_ranked st'"
proof -
  from assms(1) obtain rk :: "string \<Rightarrow> nat" where
    rk: "\<And>x p. map_of (as_cameFrom st) x = Some p \<Longrightarrow> rk p < rk x"
    unfolding as_ranked_def by blast
  obtain pth where w: "chain_walk (map_of (as_cameFrom st)) (Some e) [] = Some pth"
    using chain_walk_total [of "map_of (as_cameFrom st)" rk "Some e" "[]"] rk by blast
  let ?st2 = "mark_path_edges g pth (foldl (\<lambda>s i. set_node i IN_SOLUTION s) st pth)"
  let ?st' = "(push_step [T ''Goal reached! Path: '', Joined '' -> '' (map (label_of g) pth),
                               T ''. Cost: '', NumO (map_of (as_gScore ?st2) e)] 6
                              [(''path'', Labels (map (label_of g) pth))]
                              [T ''Path Found''] ?st2)\<lparr>as_found := True\<rparr>"
  have "as_reach_goal g e st = Some ?st'"
    by (simp add: as_reach_goal_def w Let_def)
  moreover have "trace_inv g ?st'"
    using assms(2) trace_inv_foldl_set_node [of g st "\<lambda>i. i" IN_SOLUTION pth] by simp
  moreover have "as_ranked ?st'"
    using assms(1) by (rule as_ranked_cong [rotated 2]) simp_all
  ultimately show ?thesis by blast
qed

lemma as_select_inv [simp]:
  "trace_inv g st \<Longrightarrow> trace_inv g (as_select g cn c st)"
  "as_cameFrom (as_select g cn c st) = as_cameFrom st"
  by (simp_all add: as_select_def Let_def)

lemma as_iter_total:
  assumes "as_ranked st" and "trace_inv g st"
  shows "\<exists>r. as_iter g al en e hk c st = Some r \<and>
             (\<forall>st'. r = Inr st' \<longrightarrow> as_ranked st' \<and> trace_inv g st')"
proof (cases "getNode g c")
  case None
  then show ?thesis by (simp add: as_iter_def)
next
  case (Some cn)
  let ?st1 = "as_select g cn c st"
  have r1: "as_ranked ?st1" using assms(1) by (rule as_ranked_cong [rotated 2]) simp_all
  have t1: "trace_inv g ?st1" using assms(2) by simp
  show ?thesis
  proof (cases "c = e")
    case True
    from as_reach_goal_total [OF r1 t1, of e] obtain st'
      where "as_reach_goal g e ?st1 = Some st'" "trace_inv g st'" "as_ranked st'" by blast
    then show ?thesis using Some True by (simp add: as_iter_def Let_def)
  next
    case False
    let ?st3 = "inc_nodesVisited 1 (set_node c VISITED (?st1\<lparr>as_closed := set_add c (as_closed ?st1)\<rparr>))"
    have r3: "as_ranked ?st3"
      using assms(1) by (rule as_ranked_cong [rotated 2]) (auto simp: set_add_def)
    have t3: "trace_inv g ?st3" using t1 by simp
    have c3: "c \<in> set (as_closed ?st3)" by (simp add: set_add_def)
    have "as_iter g al en e hk c st = Some (as_neighbors g en hk c (neighbors_of al c) ?st3)"
      using Some False by (simp add: as_iter_def Let_def)
    then show ?thesis using as_neighbors_inv [OF _ r3 c3 t3] by auto
  qed
qed

lemma as_loop_total:
  "as_ranked st \<Longrightarrow> trace_inv g st \<Longrightarrow>
   \<exists>r. as_loop g al en e hk st = Some r \<and> (\<forall>st'. r = Inr st' \<longrightarrow> trace_inv g st')"
proof (induction g al en e hk st rule: as_loop.induct)
  case (1 g al en e hk st)
  show ?case
  proof (cases "as_found st")
    case True
    then show ?thesis using "1.prems" by (simp add: as_loop.simps)
  next
    case nf: False
    show ?thesis
    proof (cases "as_open st")
      case Nil
      then show ?thesis using "1.prems" nf by (simp add: as_loop.simps)
    next
      case (Cons cur q)
      have "as_ranked (st\<lparr>as_open := q\<rparr>)"
        using "1.prems"(1) by (rule as_ranked_cong [rotated 2]) simp_all
      moreover have "trace_inv g (st\<lparr>as_open := q\<rparr>)" using "1.prems"(2) by simp
      ultimately obtain r where it: "as_iter g al en e hk (snd cur) (st\<lparr>as_open := q\<rparr>) = Some r"
        and rr: "\<And>st'. r = Inr st' \<Longrightarrow> as_ranked st' \<and> trace_inv g st'"
        using as_iter_total by blast
      show ?thesis
      proof (cases r)
        case (Inl err)
        then show ?thesis using nf Cons it by (simp add: as_loop.simps [of g al en e hk st])
      next
        case (Inr st1)
        from "1.IH" [OF nf Cons it Inr] rr [OF Inr] show ?thesis
          using nf Cons it Inr by (simp add: as_loop.simps [of g al en e hk st])
      qed
    qed
  qed
qed

lemma as_init_inv: "as_ranked (as_init g en hk s)" "trace_inv g (as_init g en hk s)"
  by (simp_all add: as_init_def Let_def as_ranked_def trace_inv_init)

lemma executeAStar_ok:
  "\<exists>r. executeAStar g params = Some r \<and> (\<forall>ss. r = Inr ss \<longrightarrow> steps_ok g ss)"
proof (cases "falsy_id (startNodeId params) \<or> falsy_id (endNodeId params)")
  case True
  then show ?thesis by (simp add: executeAStar_def)
next
  case False
  let ?s = "the (startNodeId params)" and ?e = "the (endNodeId params)"
  show ?thesis
  proof (cases "getNode g ?s")
    case None
    then show ?thesis using False by (simp add: executeAStar_def Let_def)
  next
    case sn: (Some startNode)
    show ?thesis
    proof (cases "getNode g ?e")
      case None
      then show ?thesis using False sn by (simp add: executeAStar_def Let_def)
    next
      case (Some endNode)
      obtain r where l: "as_loop g (toAdjacencyList g) endNode ?e (heuristic params)
                           (as_init g endNode (heuristic params) ?s) = Some r"
        and t: "\<And>st'. r = Inr st' \<Longrightarrow> trace_inv g st'"
        using as_loop_total [OF as_init_inv] by blast
      have "steps_ok g (as_finish g ?s endNode st)" if "trace_inv g st" for st
        using that by (simp add: as_finish_def trace_inv_steps_ok)
      then have "\<forall>ss. map_sum id (as_finish g ?s endNode) r = Inr ss \<longrightarrow> steps_ok g ss"
        using t by (cases r) auto
      then show ?thesis using False sn Some l by (simp add: executeAStar_def Let_def)
    qed
  qed
qed

subsection \<open>Kruskal\<close>

text \<open>
  \<open>find\<close> returns when the parent pointers are ranked: every pointer that does not lead
  to the node itself leads to a node of larger rank. The ranks in this argument are not the
  field \<open>rank\<close> of the structure, which says nothing about ids without an entry.
\<close>

definition uf_ranked :: "(string option \<Rightarrow> nat) \<Rightarrow> uf_parent \<Rightarrow> bool" where
  "uf_ranked rk parent = (\<forall>x. uf_get parent x \<noteq> x \<longrightarrow> rk x < rk (uf_get parent x))"

lemma uf_get_update: "uf_get (AList.update k v m) x = (if x = k then v else uf_get m x)"
  by (simp add: uf_get_def update_conv')

lemma uf_get_range: "uf_get parent x \<in> insert None (snd ` set parent)"
  by (auto simp: uf_get_def split: option.splits dest: map_of_SomeD intro: rev_image_eqI)

lemma uf_find_total:
  assumes "uf_ranked rk parent"
  shows "\<exists>r p'. uf_find parent x = Some (r, p') \<and> uf_ranked rk p' \<and> uf_get p' r = r \<and>
                 rk x \<le> rk r \<and> (\<forall>z. uf_get parent z = z \<longrightarrow> uf_get p' z = z)"
proof (induction "card {z \<in> insert None (snd ` set parent). rk x < rk z}" arbitrary: x rule: less_induct)
  case less
  show ?case
  proof (cases "uf_get parent x = x")
    case True
    then have "uf_find parent x = Some (x, parent)" by (subst uf_find.simps) simp
    then show ?thesis using assms True by simp
  next
    case False
    let ?y = "uf_get parent x"
    let ?F = "insert None (snd ` set parent)"
    have lt: "rk x < rk ?y" using assms False by (simp add: uf_ranked_def)
    have "{z \<in> ?F. rk ?y < rk z} \<subset> {z \<in> ?F. rk x < rk z}"
    proof
      show "{z \<in> ?F. rk ?y < rk z} \<subseteq> {z \<in> ?F. rk x < rk z}" using lt by auto
      have "?y \<in> {z \<in> ?F. rk x < rk z}" using lt uf_get_range [of parent x] by simp
      moreover have "?y \<notin> {z \<in> ?F. rk ?y < rk z}" by simp
      ultimately show "{z \<in> ?F. rk ?y < rk z} \<noteq> {z \<in> ?F. rk x < rk z}" by blast
    qed
    then have "card {z \<in> ?F. rk ?y < rk z} < card {z \<in> ?F. rk x < rk z}"
      by (intro psubset_card_mono) simp_all
    from less [OF this] obtain r p' where
      f: "uf_find parent ?y = Some (r, p')" and rk': "uf_ranked rk p'" and root: "uf_get p' r = r"
      and le: "rk ?y \<le> rk r" and keep: "\<forall>z. uf_get parent z = z \<longrightarrow> uf_get p' z = z"
      by blast
    let ?p = "AList.update x r p'"
    have "uf_find parent x = Some (r, ?p)"
      using False f by (subst uf_find.simps) (simp add: uf_get_update)
    moreover have "uf_ranked rk ?p"
      using rk' lt le unfolding uf_ranked_def by (auto simp: uf_get_update)
    moreover have "uf_get ?p r = r" using root by (simp add: uf_get_update)
    moreover have "rk x \<le> rk r" using lt le by simp
    moreover have "\<forall>z. uf_get parent z = z \<longrightarrow> uf_get ?p z = z"
      using keep False by (auto simp: uf_get_update)
    ultimately show ?thesis by blast
  qed
qed

definition uf_acyclic :: "union_find \<Rightarrow> bool" where
  "uf_acyclic u = (\<exists>rk. uf_ranked rk (uf_parent u))"

lemma uf_link_ranked:
  assumes "uf_ranked rk p" and "uf_get p a = a" and "uf_get p b = b" and "a \<noteq> b"
  shows "uf_ranked (rk (b := max (rk b) (rk a + 1))) (AList.update a b p)"
  unfolding uf_ranked_def
proof (intro allI impI)
  fix x
  let ?rk = "rk (b := max (rk b) (rk a + 1))"
  assume nr: "uf_get (AList.update a b p) x \<noteq> x"
  show "?rk x < ?rk (uf_get (AList.update a b p) x)"
  proof (cases "x = a")
    case True
    then show ?thesis using assms(4) by (simp add: uf_get_update)
  next
    case False
    then have g: "uf_get (AList.update a b p) x = uf_get p x" by (simp add: uf_get_update)
    then have "uf_get p x \<noteq> x" using nr by simp
    then have "rk x < rk (uf_get p x)" and "x \<noteq> b"
      using assms(1,3) by (auto simp: uf_ranked_def)
    then show ?thesis using g by auto
  qed
qed

lemma uf_union_total:
  assumes "uf_acyclic u"
  shows "\<exists>j u'. uf_union u x y = Some (j, u') \<and> uf_acyclic u'"
proof -
  from assms obtain rk where rk: "uf_ranked rk (uf_parent u)" unfolding uf_acyclic_def by blast
  from uf_find_total [OF rk, of "Some x"] obtain rx p1 where
    f1: "uf_find (uf_parent u) (Some x) = Some (rx, p1)" and rk1: "uf_ranked rk p1"
    and root1: "uf_get p1 rx = rx" by blast
  from uf_find_total [OF rk1, of "Some y"] obtain ry p2 where
    f2: "uf_find p1 (Some y) = Some (ry, p2)" and rk2: "uf_ranked rk p2"
    and root2: "uf_get p2 ry = ry" and keep: "\<forall>z. uf_get p1 z = z \<longrightarrow> uf_get p2 z = z" by blast
  have rootx: "uf_get p2 rx = rx" using keep root1 by simp
  show ?thesis
  proof (cases "rx = ry")
    case True
    then have "uf_union u x y = Some (False, u\<lparr>uf_parent := p2\<rparr>)"
      using f1 f2 by (simp add: uf_union_def)
    moreover have "uf_acyclic (u\<lparr>uf_parent := p2\<rparr>)"
      using rk2 by (auto simp: uf_acyclic_def)
    ultimately show ?thesis by blast
  next
    case False
    have a: "uf_acyclic (v\<lparr>uf_parent := AList.update rx ry p2\<rparr>)" for v :: union_find
      using uf_link_ranked [OF rk2 rootx root2 False] by (auto simp: uf_acyclic_def)
    have b: "uf_acyclic (v\<lparr>uf_parent := AList.update ry rx p2\<rparr>)" for v :: union_find
      using uf_link_ranked [OF rk2 root2 rootx] False by (auto simp: uf_acyclic_def)
    have c: "uf_acyclic \<lparr>uf_parent = AList.update ry rx p2, uf_rank = k\<rparr>" for k
      using b [of "\<lparr>uf_parent = [], uf_rank = k\<rparr>"] by simp
    show ?thesis
      using f1 f2 False a b c by (auto simp: uf_union_def Let_def)
  qed
qed

lemma uf_new_acyclic: "uf_acyclic (uf_new ids)"
proof -
  let ?rk = "\<lambda>z :: string option. if z = None then (1 :: nat) else 0"
  have "\<forall>x. uf_get (uf_parent (foldl (\<lambda>u i. \<lparr>uf_parent = AList.update (Some i) (Some i) (uf_parent u),
                    uf_rank = AList.update (Some i) 0 (uf_rank u)\<rparr>) u0 ids)) x \<in> {x, None}"
    if "\<forall>x. uf_get (uf_parent u0) x \<in> {x, None}" for u0
    using that by (induction ids arbitrary: u0) (auto simp: uf_get_update)
  from this [of "\<lparr>uf_parent = [], uf_rank = []\<rparr>"]
  have "\<forall>x. uf_get (uf_parent (uf_new ids)) x \<in> {x, None}"
    by (simp add: uf_new_def uf_get_def)
  then have "uf_ranked ?rk (uf_parent (uf_new ids))"
    unfolding uf_ranked_def by (metis insert_iff less_numeral_extra(1) singletonD)
  then show ?thesis unfolding uf_acyclic_def by blast
qed

lemma kr_fields_prims [simp]:
  "kr_uf (set_node i v st) = kr_uf st"
  "kr_uf (set_edge j ev st) = kr_uf st"
  "kr_uf (set_edge_opt e ev st) = kr_uf st"
  "kr_uf (reject_unless_solution e st) = kr_uf st"
  "kr_uf (inc_nodesVisited k st) = kr_uf st"
  "kr_uf (inc_edgesExamined st) = kr_uf st"
  "kr_uf (inc_operationsCount st) = kr_uf st"
  "kr_uf (inc_comparisons st) = kr_uf st"
  "kr_uf (push_step d l ds opn st) = kr_uf st"
  "kr_mstEdges (set_node i v st) = kr_mstEdges st"
  "kr_mstEdges (set_edge j ev st) = kr_mstEdges st"
  "kr_mstEdges (set_edge_opt e ev st) = kr_mstEdges st"
  "kr_mstEdges (reject_unless_solution e st) = kr_mstEdges st"
  "kr_mstEdges (inc_nodesVisited k st) = kr_mstEdges st"
  "kr_mstEdges (inc_edgesExamined st) = kr_mstEdges st"
  "kr_mstEdges (inc_operationsCount st) = kr_mstEdges st"
  "kr_mstEdges (inc_comparisons st) = kr_mstEdges st"
  "kr_mstEdges (push_step d l ds opn st) = kr_mstEdges st"
  "kr_totalWeight (set_node i v st) = kr_totalWeight st"
  "kr_totalWeight (set_edge j ev st) = kr_totalWeight st"
  "kr_totalWeight (set_edge_opt e ev st) = kr_totalWeight st"
  "kr_totalWeight (reject_unless_solution e st) = kr_totalWeight st"
  "kr_totalWeight (inc_nodesVisited k st) = kr_totalWeight st"
  "kr_totalWeight (inc_edgesExamined st) = kr_totalWeight st"
  "kr_totalWeight (inc_operationsCount st) = kr_totalWeight st"
  "kr_totalWeight (inc_comparisons st) = kr_totalWeight st"
  "kr_totalWeight (push_step d l ds opn st) = kr_totalWeight st"
  by (simp_all add: set_node_def set_edge_def set_edge_opt_def reject_unless_solution_def
        inc_nodesVisited_def inc_edgesExamined_def inc_operationsCount_def inc_comparisons_def
        push_step_def split: option.splits)


lemma kr_edge_total:
  assumes "uf_acyclic (kr_uf st)" and "trace_inv g st"
  shows "\<exists>st'. kr_edge g e st = Some st' \<and> uf_acyclic (kr_uf st') \<and> trace_inv g st'"
proof -
  from uf_union_total [OF assms(1), of "source e" "target e"] obtain j u'
    where un: "uf_union (kr_uf st) (source e) (target e) = Some (j, u')" and ac: "uf_acyclic u'"
    by auto
  show ?thesis using un ac assms(2)
    by (cases j) (simp_all add: kr_edge_def Let_def)
qed

lemma kr_edges_total:
  "uf_acyclic (kr_uf st) \<Longrightarrow> trace_inv g st \<Longrightarrow>
   \<exists>st'. kr_edges g es st = Some st' \<and> trace_inv g st'"
proof (induction es arbitrary: st)
  case Nil
  then show ?case by simp
next
  case (Cons e es)
  from kr_edge_total [OF Cons.prems, of e] obtain st1 where
    s1: "kr_edge g e st = Some st1" and a1: "uf_acyclic (kr_uf st1)" and t1: "trace_inv g st1"
    by blast
  from Cons.IH [OF a1 t1] show ?case using s1 t1 by auto
qed

lemma executeKruskal_ok: "\<exists>ss. executeKruskal g params = Some ss \<and> steps_ok g ss"
proof -
  have "uf_acyclic (kr_uf (kr_init g))" "trace_inv g (kr_init g)"
    by (simp_all add: kr_init_def Let_def uf_new_acyclic trace_inv_init)
  from kr_edges_total [OF this, of "sort_edges (edges g)"] obtain st where
    "kr_edges g (sort_edges (edges g)) (kr_init g) = Some st" and "trace_inv g st" by blast
  then show ?thesis
    by (simp add: executeKruskal_def kr_finish_def trace_inv_steps_ok)
qed

subsection \<open>All nine executors\<close>

lemma execute_returns_or_throws: "\<exists>r. execute a g params = Some r"
  using executeDijkstra_ok [of g params] executeAStar_ok [of g params] executeKruskal_ok [of g params]
  by (cases a) auto

lemma execute_steps_ok: "execute a g params = Some (Inr ss) \<Longrightarrow> steps_ok g ss"
proof (cases a)
  case BFS
  then show "execute a g params = Some (Inr ss) \<Longrightarrow> steps_ok g ss"
    using executeBFS_ok [of g params] by auto
next
  case DFS
  then show "execute a g params = Some (Inr ss) \<Longrightarrow> steps_ok g ss"
    using executeDFS_ok [of g params] by auto
next
  case DIJKSTRA
  then show "execute a g params = Some (Inr ss) \<Longrightarrow> steps_ok g ss"
    using executeDijkstra_ok [of g params] by auto
next
  case ASTAR
  then show "execute a g params = Some (Inr ss) \<Longrightarrow> steps_ok g ss"
    using executeAStar_ok [of g params] by auto
next
  case KRUSKAL
  then show "execute a g params = Some (Inr ss) \<Longrightarrow> steps_ok g ss"
    using executeKruskal_ok [of g params] by auto
next
  case PRIM
  then show "execute a g params = Some (Inr ss) \<Longrightarrow> steps_ok g ss"
    using executePrim_ok [of g params ss] by auto
next
  case TOPOLOGICAL
  then show "execute a g params = Some (Inr ss) \<Longrightarrow> steps_ok g ss"
    using executeTopologicalSort_ok [of g params ss] by auto
next
  case CYCLE_DETECTION
  then show "execute a g params = Some (Inr ss) \<Longrightarrow> steps_ok g ss"
    using executeCycleDetection_ok [of g params ss] by auto
next
  case CONNECTED_COMPONENTS
  then show "execute a g params = Some (Inr ss) \<Longrightarrow> steps_ok g ss"
    using executeConnectedComponents_ok [of g params ss] by auto
qed

text \<open>
  C6. Each of the nine executors ends, by returning its steps or by throwing. When it
  returns, in every step the map \<open>nodeStates\<close> has an entry for every node id of the graph
  and the map \<open>edgeStates\<close> an entry for every edge id.
\<close>

theorem every_step_has_complete_maps:
  "(\<exists>r. execute a g params = Some r) \<and>
   (execute a g params = Some (Inr ss) \<longrightarrow>
      (\<forall>s \<in> set ss. (\<forall>n \<in> set (nodes g). map_of (nodeStates s) (nid n) \<noteq> None) \<and>
                    (\<forall>e \<in> set (edges g). map_of (edgeStates s) (eid e) \<noteq> None)))"
proof -
  have "map_of (nodeStates s) (nid n) \<noteq> None"
    if ex: "execute a g params = Some (Inr ss)" and s: "s \<in> set ss"
      and n: "n \<in> set (nodes g)" for s n
  proof -
    have "step_complete g s" using execute_steps_ok [OF ex] s by (simp add: steps_ok_def)
    then have "nid n \<in> fst ` set (nodeStates s)" using n by (auto simp: step_complete_def)
    then show ?thesis by (simp add: map_of_eq_None_iff)
  qed
  moreover have "map_of (edgeStates s) (eid e) \<noteq> None"
    if ex: "execute a g params = Some (Inr ss)" and s: "s \<in> set ss"
      and e: "e \<in> set (edges g)" for s e
  proof -
    have "step_complete g s" using execute_steps_ok [OF ex] s by (simp add: steps_ok_def)
    then have "eid e \<in> fst ` set (edgeStates s)" using e by (auto simp: step_complete_def)
    then show ?thesis by (simp add: map_of_eq_None_iff)
  qed
  ultimately show ?thesis using execute_returns_or_throws [of a g params] by blast
qed

lemma topological_dag_returns:
  "case executeTopologicalSort graph_dag no_params of Inl e \<Rightarrow> False | Inr ss \<Rightarrow> length ss = 11"
  by code_simp

theorem every_step_has_complete_maps_witness:
  "\<exists>ss. execute TOPOLOGICAL graph_dag no_params = Some (Inr ss) \<and> length ss = 11 \<and>
      (\<forall>s \<in> set ss. (\<forall>n \<in> set (nodes graph_dag). map_of (nodeStates s) (nid n) \<noteq> None) \<and>
                    (\<forall>e \<in> set (edges graph_dag). map_of (edgeStates s) (eid e) \<noteq> None))"
proof -
  from topological_dag_returns obtain ss where
    ss: "executeTopologicalSort graph_dag no_params = Inr ss" "length ss = 11"
    by (cases "executeTopologicalSort graph_dag no_params") auto
  then have "execute TOPOLOGICAL graph_dag no_params = Some (Inr ss)" by simp
  with every_step_has_complete_maps [of TOPOLOGICAL graph_dag no_params ss] ss(2)
  show ?thesis by blast
qed

text \<open>
  C7. When an executor returns, each of the four counters of a step is at most the same
  counter of the next step.
\<close>

theorem metrics_never_decrease:
  "(\<exists>r. execute a g params = Some r) \<and>
   (execute a g params = Some (Inr ss) \<longrightarrow>
      (\<forall>i. Suc i < length ss \<longrightarrow>
         nodesVisited (metrics (ss ! i)) \<le> nodesVisited (metrics (ss ! Suc i)) \<and>
         edgesExamined (metrics (ss ! i)) \<le> edgesExamined (metrics (ss ! Suc i)) \<and>
         operationsCount (metrics (ss ! i)) \<le> operationsCount (metrics (ss ! Suc i)) \<and>
         comparisons (metrics (ss ! i)) \<le> comparisons (metrics (ss ! Suc i))))"
proof -
  have "nodesVisited (metrics (ss ! i)) \<le> nodesVisited (metrics (ss ! Suc i)) \<and>
         edgesExamined (metrics (ss ! i)) \<le> edgesExamined (metrics (ss ! Suc i)) \<and>
         operationsCount (metrics (ss ! i)) \<le> operationsCount (metrics (ss ! Suc i)) \<and>
         comparisons (metrics (ss ! i)) \<le> comparisons (metrics (ss ! Suc i))"
    if ex: "execute a g params = Some (Inr ss)" and i: "Suc i < length ss" for i
  proof -
    have "sorted_wrt (\<lambda>a b. metrics_le (metrics a) (metrics b)) ss"
      using execute_steps_ok [OF ex] by (simp add: steps_ok_def)
    then have "metrics_le (metrics (ss ! i)) (metrics (ss ! Suc i))"
      using i by (simp add: sorted_wrt_iff_nth_less)
    then show ?thesis by (simp add: metrics_le_def)
  qed
  then show ?thesis using execute_returns_or_throws [of a g params] by blast
qed

lemma prim_triangle_returns:
  "case executePrim graph_triangle (params_start ''a'') of Inl e \<Rightarrow> False | Inr ss \<Rightarrow> length ss = 11"
  by code_simp

theorem metrics_never_decrease_witness:
  "\<exists>ss. execute PRIM graph_triangle (params_start ''a'') = Some (Inr ss) \<and> length ss = 11 \<and>
      (\<forall>i. Suc i < length ss \<longrightarrow>
         nodesVisited (metrics (ss ! i)) \<le> nodesVisited (metrics (ss ! Suc i)) \<and>
         edgesExamined (metrics (ss ! i)) \<le> edgesExamined (metrics (ss ! Suc i)) \<and>
         operationsCount (metrics (ss ! i)) \<le> operationsCount (metrics (ss ! Suc i)) \<and>
         comparisons (metrics (ss ! i)) \<le> comparisons (metrics (ss ! Suc i)))"
proof -
  from prim_triangle_returns obtain ss where
    ss: "executePrim graph_triangle (params_start ''a'') = Inr ss" "length ss = 11"
    by (cases "executePrim graph_triangle (params_start ''a'')") auto
  then have "execute PRIM graph_triangle (params_start ''a'') = Some (Inr ss)" by simp
  with metrics_never_decrease [of PRIM graph_triangle "params_start ''a''" ss] ss(2)
  show ?thesis by blast
qed

end
